theory Spec2Isabelle
  imports Main "HOL-Library.Word"
begin

section \<open>C characters, strings and integers\<close>

text \<open>
  The program is a single C file, \<^verbatim>\<open>tasakman.cpp\<close>. Its \<^verbatim>\<open>int\<close> is a 32-bit
  two's-complement word; comparisons on it are signed. A file is the list of its bytes,
  a C string is a list of bytes without the terminating NUL.
\<close>

type_synonym cint = "32 word"

abbreviation NUL :: char where "NUL \<equiv> CHR 0x00"
abbreviation newline :: char where "newline \<equiv> CHR 0x0A"
abbreviation dquote :: char where "dquote \<equiv> CHR 0x22"

definition MAX_DESCRIPTION_LEN :: nat where
  "MAX_DESCRIPTION_LEN = 256"

text \<open>\<^verbatim>\<open>char line[MAX_DESCRIPTION_LEN + 20]\<close>, the buffer of every read loop.\<close>

definition LINE_SIZE :: nat where
  "LINE_SIZE = MAX_DESCRIPTION_LEN + 20"

text \<open>What \<^verbatim>\<open>%s\<close>, \<^verbatim>\<open>sscanf\<close> and \<^verbatim>\<open>strcat\<close> see of a buffer: the bytes before the first NUL.\<close>

definition c_str :: "string \<Rightarrow> string" where
  "c_str buf = takeWhile (\<lambda>c. c \<noteq> NUL) buf"

text \<open>\<^verbatim>\<open>isspace\<close> and \<^verbatim>\<open>isdigit\<close> in the C locale.\<close>

definition isspace :: "char \<Rightarrow> bool" where
  "isspace c \<longleftrightarrow> c = CHR '' '' \<or> c = CHR 0x09 \<or> c = CHR 0x0A \<or> c = CHR 0x0B \<or> c = CHR 0x0C \<or> c = CHR 0x0D"

definition isdigit :: "char \<Rightarrow> bool" where
  "isdigit c \<longleftrightarrow> 48 \<le> (of_char c :: nat) \<and> (of_char c :: nat) \<le> 57"

definition digit_of :: "char \<Rightarrow> nat" where
  "digit_of c = of_char c - 48"

definition digit_char :: "nat \<Rightarrow> char" where
  "digit_char d = char_of (48 + d)"

text \<open>The value of a digit string, accumulated from the left as \<^verbatim>\<open>strtol\<close> does.\<close>

fun decimal :: "nat \<Rightarrow> string \<Rightarrow> nat" where
  "decimal acc [] = acc"
| "decimal acc (c # cs) = decimal (acc * 10 + digit_of c) cs"

text \<open>
  \<^verbatim>\<open>%d\<close> of \<^verbatim>\<open>sscanf\<close> and \<^verbatim>\<open>atoi\<close> convert through \<^verbatim>\<open>strtol\<close>: the value is clamped to
  the 64-bit \<^verbatim>\<open>long\<close> and then truncated to \<^verbatim>\<open>int\<close>. (The C standard leaves a value that
  does not fit undefined; this is what glibc on an LP64 platform computes.)
\<close>

definition strtol_clamp :: "int \<Rightarrow> int" where
  "strtol_clamp v = max (- (2 ^ 63)) (min (2 ^ 63 - 1) v)"

definition long_to_int :: "int \<Rightarrow> cint" where
  "long_to_int v = word_of_int v"

text \<open>
  One \<^verbatim>\<open>%d\<close> conversion: skip white space, an optional sign, at least one digit.
  The result is the converted value and the unread rest, or \<open>None\<close> when the
  conversion fails (no digit, or the end of the string).
\<close>

definition scan_int :: "string \<Rightarrow> (cint \<times> string) option" where
  "scan_int s =
     (let s1 = dropWhile isspace s;
          neg = (s1 \<noteq> [] \<and> hd s1 = CHR ''-'');
          s2 = (if s1 \<noteq> [] \<and> (hd s1 = CHR ''-'' \<or> hd s1 = CHR ''+'') then tl s1 else s1);
          ds = takeWhile isdigit s2
      in if ds = [] then None
         else Some (long_to_int (strtol_clamp (if neg then - int (decimal 0 ds) else int (decimal 0 ds))),
                    dropWhile isdigit s2))"

text \<open>\<^verbatim>\<open>atoi(s)\<close>: the same conversion, 0 when there is no number.\<close>

definition atoi :: "string \<Rightarrow> cint" where
  "atoi s = (case scan_int s of None \<Rightarrow> 0 | Some (v, _) \<Rightarrow> v)"

text \<open>\<^verbatim>\<open>%d\<close> of \<^verbatim>\<open>printf\<close>: the signed decimal representation.\<close>

function show_nat :: "nat \<Rightarrow> string" where
  "show_nat n = (if n < 10 then [digit_char n] else show_nat (n div 10) @ [digit_char (n mod 10)])"
  by pat_completeness auto
termination
  by (relation "measure (\<lambda>n. n)") auto

declare show_nat.simps [simp del]

definition show_int :: "int \<Rightarrow> string" where
  "show_int i = (if i < 0 then CHR ''-'' # show_nat (nat (- i)) else show_nat (nat i))"

definition printf_d :: "cint \<Rightarrow> string" where
  "printf_d v = show_int (sint v)"

text \<open>\<^verbatim>\<open>%-Ns\<close> and \<^verbatim>\<open>%-Nd\<close>: left-justified in a field of at least \<open>N\<close> characters.\<close>

definition pad_right :: "nat \<Rightarrow> string \<Rightarrow> string" where
  "pad_right n s = s @ replicate (n - length s) (CHR '' '')"

section \<open>Reading the store file line by line\<close>

text \<open>
  \<^verbatim>\<open>fgets(line, n, file)\<close> reads at most \<open>n - 1\<close> bytes and stops after a newline.
  \<open>fgets_take\<close> returns the bytes read and the rest of the stream.
\<close>

fun fgets_take :: "nat \<Rightarrow> string \<Rightarrow> string \<times> string" where
  "fgets_take 0 cs = ([], cs)"
| "fgets_take (Suc n) [] = ([], [])"
| "fgets_take (Suc n) (c # cs) =
     (if c = newline then ([c], cs)
      else case fgets_take n cs of (buf, rest) \<Rightarrow> (c # buf, rest))"

text \<open>
  \<open>None\<close> is the \<^verbatim>\<open>NULL\<close> of the end of the file. The buffer is handed on as the C string
  it holds, so a line is cut at its first NUL byte.
\<close>

definition fgets :: "nat \<Rightarrow> string \<Rightarrow> (string \<times> string) option" where
  "fgets n stream =
     (if stream = [] then None
      else case fgets_take (n - 1) stream of (buf, rest) \<Rightarrow> Some (c_str buf, rest))"

text \<open>
  The lines that the loop \<^verbatim>\<open>while (fgets(line, sizeof(line), file) != NULL)\<close> sees, in
  order. All four operations run this loop; each has its own body below.
\<close>

function read_lines :: "string \<Rightarrow> string list" where
  "read_lines stream =
     (case fgets LINE_SIZE stream of
        None \<Rightarrow> []
      | Some (line, rest) \<Rightarrow> line # read_lines rest)"
  by pat_completeness auto
termination
proof (relation "measure length")
  show "wf (measure length)"
    by simp
next
  fix stream :: string and x2 line rest
  assume a: "fgets LINE_SIZE stream = Some x2" "(line, rest) = x2"
  have le: "length (snd (fgets_take n cs)) \<le> length cs" for n cs
    by (induction n cs rule: fgets_take.induct) (auto split: prod.splits)
  have lt: "length (snd (fgets_take (Suc n) cs)) < length cs" if "cs \<noteq> []" for n cs
  proof (cases cs)
    case Nil
    with that show ?thesis by simp
  next
    case (Cons c cs')
    have "length (snd (fgets_take n cs')) \<le> length cs'"
      by (rule le)
    with Cons show ?thesis
      by (auto split: prod.splits)
  qed
  from a have ne: "stream \<noteq> []" and r: "rest = snd (fgets_take (LINE_SIZE - 1) stream)"
    by (auto simp: fgets_def split: if_splits prod.splits)
  have "LINE_SIZE - 1 = Suc 274"
    by (simp add: LINE_SIZE_def MAX_DESCRIPTION_LEN_def)
  with lt [OF ne, of 274] r show "(rest, stream) \<in> measure length"
    by simp
qed

declare read_lines.simps [simp del]

section \<open>Parsing a line\<close>

text \<open>
  \<^verbatim>\<open>sscanf(line, "%d,", &id) == 1\<close>. The call returns 1 as soon as the \<^verbatim>\<open>%d\<close> is
  converted: the comma after it is matched, or not, without changing the count.
\<close>

definition sscanf_id :: "string \<Rightarrow> cint option" where
  "sscanf_id line = map_option fst (scan_int line)"

text \<open>
  Writing a description of 256 bytes or more into \<^verbatim>\<open>char description[256]\<close> is
  undefined behaviour; the model stops there with an error of its own.
\<close>

datatype error = BufferOverflow

text \<open>
  \<^verbatim>\<open>sscanf(line, "%d,%d,%[^\n]", &id, &status, description) == 3\<close>: the three
  converted fields, or \<open>None\<close> when the call returns less than 3. \<^verbatim>\<open>%[^\n]\<close> takes
  the bytes up to the newline and fails when there is none to take; it has no width.
\<close>

definition sscanf_task :: "string \<Rightarrow> error + (cint \<times> cint \<times> string) option" where
  "sscanf_task line =
     (case scan_int line of
        None \<Rightarrow> Inr None
      | Some (tid, r1) \<Rightarrow>
          if r1 = [] \<or> hd r1 \<noteq> CHR '','' then Inr None
          else (case scan_int (tl r1) of
                  None \<Rightarrow> Inr None
                | Some (status, r2) \<Rightarrow>
                    if r2 = [] \<or> hd r2 \<noteq> CHR '','' then Inr None
                    else let description = takeWhile (\<lambda>c. c \<noteq> newline) (tl r2)
                         in if description = [] then Inr None
                            else if MAX_DESCRIPTION_LEN \<le> length description then Inl BufferOverflow
                            else Inr (Some (tid, status, description))))"

section \<open>The process and its environment\<close>

text \<open>
  What the operations see of the outside: whether \<^verbatim>\<open>HOME\<close> is set, whether the task
  directory exists or can be made, whether a file in it can be opened for writing, and
  the bytes of \<^verbatim>\<open>tasks.txt\<close> (\<open>None\<close> when there is no such file). The results of
  \<^verbatim>\<open>remove\<close> and \<^verbatim>\<open>rename\<close> are not looked at by the program; here they succeed.
\<close>

record world =
  home_set :: bool
  dir_ok :: bool
  writable :: bool
  tasks :: "string option"

datatype out = Stdout string | Stderr string | Perror string

definition ANSI_COLOR_GREEN :: string where "ANSI_COLOR_GREEN = CHR 0x1B # ''[32m''"
definition ANSI_COLOR_YELLOW :: string where "ANSI_COLOR_YELLOW = CHR 0x1B # ''[33m''"
definition ANSI_COLOR_CYAN :: string where "ANSI_COLOR_CYAN = CHR 0x1B # ''[36m''"
definition ANSI_COLOR_RESET :: string where "ANSI_COLOR_RESET = CHR 0x1B # ''[0m''"
definition ANSI_BOLD :: string where "ANSI_BOLD = CHR 0x1B # ''[1m''"

section \<open>getNextTaskId\<close>

text \<open>
  Lines 66 to 88 of the source. \<^verbatim>\<open>maxId\<close> starts at 0 and the result is \<^verbatim>\<open>maxId + 1\<close>, which
  overflows when \<^verbatim>\<open>maxId\<close> is \<^verbatim>\<open>INT_MAX\<close>; the word addition wraps there, and the
  theorems about the result keep the ids below \<^verbatim>\<open>INT_MAX\<close>.
\<close>

fun next_id_loop :: "cint \<Rightarrow> string list \<Rightarrow> cint" where
  "next_id_loop maxId [] = maxId"
| "next_id_loop maxId (line # ls) =
     (case sscanf_id line of
        Some tid \<Rightarrow> next_id_loop (if maxId <s tid then tid else maxId) ls
      | None \<Rightarrow> next_id_loop maxId ls)"

definition getNextTaskId :: "string option \<Rightarrow> cint" where
  "getNextTaskId file =
     (case file of
        None \<Rightarrow> 1
      | Some content \<Rightarrow> next_id_loop 0 (read_lines content) + 1)"

section \<open>addTask\<close>

text \<open>
  Lines 91 to 105. The file is opened for appending first, which creates it;
  \<^verbatim>\<open>getNextTaskId\<close> then reads what was there before the new line is written.
\<close>

definition addTask :: "string \<Rightarrow> world \<Rightarrow> world \<times> out list" where
  "addTask description w =
     (if \<not> writable w then (w, [Perror ''Error opening task file for writing''])
      else
        let content = (case tasks w of None \<Rightarrow> [] | Some c \<Rightarrow> c);
            tid = getNextTaskId (Some content)
        in (w\<lparr>tasks := Some (content @ printf_d tid @ '','' @ printf_d 0 @ '','' @ description @ [newline])\<rparr>,
            [Stdout (''Task added: ID '' @ printf_d tid @ '' - '' @ [dquote] @ description @ [dquote, newline])]))"

section \<open>listTasks\<close>

text \<open>
  Lines 108 to 140. The records the loop of \<^verbatim>\<open>listTasks\<close> prints: id, status and
  description.
\<close>

fun list_loop :: "string list \<Rightarrow> error + (cint \<times> cint \<times> string) list" where
  "list_loop [] = Inr []"
| "list_loop (line # ls) =
     (case sscanf_task line of
        Inl e \<Rightarrow> Inl e
      | Inr None \<Rightarrow> list_loop ls
      | Inr (Some r) \<Rightarrow> (case list_loop ls of Inl e \<Rightarrow> Inl e | Inr rs \<Rightarrow> Inr (r # rs)))"

definition status_text :: "cint \<Rightarrow> string" where
  "status_text status = (if status = 1 then ''[DONE]'' else ''[PENDING]'')"

definition status_color :: "cint \<Rightarrow> string" where
  "status_color status = (if status = 1 then ANSI_COLOR_GREEN else ANSI_COLOR_YELLOW)"

definition print_task :: "cint \<times> cint \<times> string \<Rightarrow> out" where
  "print_task r =
     (case r of (tid, status, description) \<Rightarrow>
        Stdout (ANSI_COLOR_CYAN @ ''ID: '' @ pad_right 4 (printf_d tid) @ ANSI_COLOR_RESET
                @ '' Status: '' @ status_color status @ pad_right 10 (status_text status) @ ANSI_COLOR_RESET
                @ '' Description: '' @ description @ ANSI_COLOR_RESET @ [newline]))"

text \<open>
  What the function prints once the file is open: the header, one line for each record,
  \<^verbatim>\<open>No tasks found.\<close> when \<^verbatim>\<open>count\<close> is 0, and the footer.
\<close>

definition list_output :: "(cint \<times> cint \<times> string) list \<Rightarrow> out list" where
  "list_output rs =
     [Stdout ([newline] @ ANSI_BOLD @ ANSI_COLOR_CYAN
              @ ''------------------------------------------------------''
              @ ANSI_COLOR_RESET @ [newline])]
     @ map print_task rs
     @ (if length rs = 0 then [Stdout (''No tasks found.'' @ [newline])] else [])
     @ [Stdout (ANSI_COLOR_CYAN
                @ ''------------------------------------------------------''
                @ ANSI_COLOR_RESET @ [newline, newline])]"

definition listTasks :: "world \<Rightarrow> error + out list" where
  "listTasks w =
     (case tasks w of
        None \<Rightarrow> Inr [Stdout (''No tasks found. Create one using 'add' command.'' @ [newline])]
      | Some content \<Rightarrow>
          (case list_loop (read_lines content) of
             Inl e \<Rightarrow> Inl e
           | Inr rs \<Rightarrow> Inr (list_output rs)))"

section \<open>modifyTaskStatus\<close>

text \<open>
  Lines 143 to 202. The loop writes to the temporary file \<open>temp\<close> and sets
  \<open>taskFound\<close>; the temporary file then takes the place of the task file.
\<close>

fun modify_loop :: "cint \<Rightarrow> bool \<Rightarrow> string list \<Rightarrow> string \<Rightarrow> bool \<Rightarrow> error + string \<times> bool" where
  "modify_loop taskId complete [] temp taskFound = Inr (temp, taskFound)"
| "modify_loop taskId complete (line # ls) temp taskFound =
     (case sscanf_task line of
        Inl e \<Rightarrow> Inl e
      | Inr None \<Rightarrow> modify_loop taskId complete ls (temp @ line) taskFound
      | Inr (Some (tid, status, description)) \<Rightarrow>
          if tid = taskId
          then modify_loop taskId complete ls
                 (temp @ printf_d tid @ '','' @ printf_d (if complete then 1 else 0) @ '',''
                       @ description @ [newline]) True
          else modify_loop taskId complete ls (temp @ line) taskFound)"

definition modifyTaskStatus :: "cint \<Rightarrow> bool \<Rightarrow> world \<Rightarrow> error + world \<times> out list" where
  "modifyTaskStatus taskId complete w =
     (case tasks w of
        None \<Rightarrow> Inr (w, [Stdout (''No tasks found.'' @ [newline])])
      | Some content \<Rightarrow>
          if \<not> home_set w
          then Inr (w, [Stderr (''Error: HOME environment variable not set. Cannot create temporary file.'' @ [newline])])
          else if \<not> writable w then Inr (w, [Perror ''Error creating temporary file''])
          else (case modify_loop taskId complete (read_lines content) [] False of
                  Inl e \<Rightarrow> Inl e
                | Inr (temp, taskFound) \<Rightarrow>
                    Inr (w\<lparr>tasks := Some temp\<rparr>,
                         [Stdout (if taskFound
                                  then ''Task ID '' @ printf_d taskId @ '' marked as ''
                                       @ (if complete then ''DONE'' else ''PENDING'') @ ''.'' @ [newline]
                                  else ''Task ID '' @ printf_d taskId @ '' not found.'' @ [newline])])))"

section \<open>deleteTask\<close>

text \<open>
  Lines 205 to 259. The loop looks at the id alone: \<^verbatim>\<open>sscanf(line, "%d,", &id) == 1\<close>.
\<close>

fun delete_loop :: "cint \<Rightarrow> string list \<Rightarrow> string \<Rightarrow> bool \<Rightarrow> string \<times> bool" where
  "delete_loop taskId [] temp taskFound = (temp, taskFound)"
| "delete_loop taskId (line # ls) temp taskFound =
     (case sscanf_id line of
        Some tid \<Rightarrow>
          if tid = taskId then delete_loop taskId ls temp True
          else delete_loop taskId ls (temp @ line) taskFound
      | None \<Rightarrow> delete_loop taskId ls (temp @ line) taskFound)"

definition deleteTask :: "cint \<Rightarrow> world \<Rightarrow> world \<times> out list" where
  "deleteTask taskId w =
     (case tasks w of
        None \<Rightarrow> (w, [Stdout (''No tasks found.'' @ [newline])])
      | Some content \<Rightarrow>
          if \<not> home_set w
          then (w, [Stderr (''Error: HOME environment variable not set. Cannot create temporary file.'' @ [newline])])
          else if \<not> writable w then (w, [Perror ''Error creating temporary file''])
          else (case delete_loop taskId (read_lines content) [] False of
                  (temp, taskFound) \<Rightarrow>
                    (w\<lparr>tasks := Some temp\<rparr>,
                     [Stdout (if taskFound
                              then ''Task ID '' @ printf_d taskId @ '' deleted.'' @ [newline]
                              else ''Task ID '' @ printf_d taskId @ '' not found.'' @ [newline])])))"

section \<open>main\<close>

text \<open>
  Lines 263 to 349. \<open>prog\<close> is \<^verbatim>\<open>argv[0]\<close>, \<open>args\<close> the arguments after it; the result
  carries the exit status. The \<^verbatim>\<open>add\<close> command joins its words with \<^verbatim>\<open>strcat\<close> in a
  buffer of 256 bytes, which a longer description overflows.
\<close>

definition usage :: "string \<Rightarrow> out list" where
  "usage prog =
     [Stdout (''Usage:'' @ [newline]),
      Stdout (''  '' @ prog @ '' add <description>'' @ [newline]),
      Stdout (''  '' @ prog @ '' list'' @ [newline]),
      Stdout (''  '' @ prog @ '' done <task_id>'' @ [newline]),
      Stdout (''  '' @ prog @ '' pending <task_id>'' @ [newline]),
      Stdout (''  '' @ prog @ '' delete <task_id>'' @ [newline])]"

fun join_args :: "string list \<Rightarrow> string" where
  "join_args [] = []"
| "join_args [a] = a"
| "join_args (a # b # bs) = a @ '' '' @ join_args (b # bs)"

definition invalid_id :: "out list" where
  "invalid_id = [Stdout (''Invalid task ID. Please provide a positive integer.'' @ [newline])]"

definition main :: "string \<Rightarrow> string list \<Rightarrow> world \<Rightarrow> error + world \<times> out list \<times> int" where
  "main prog args w =
     (if \<not> home_set w
      then Inr (w, [Stderr (''Error: HOME environment variable not set. Cannot determine task file path.'' @ [newline])], 1)
      else if \<not> dir_ok w then Inr (w, [Perror ''Error creating task directory''], 1)
      else case args of
        [] \<Rightarrow> Inr (w, usage prog, 1)
      | cmd # rest \<Rightarrow>
          if cmd = ''add'' then
            (if rest = [] then Inr (w, [Stdout (''Usage: '' @ prog @ '' add <description>'' @ [newline])], 1)
             else if MAX_DESCRIPTION_LEN \<le> length (join_args rest) then Inl BufferOverflow
             else case addTask (join_args rest) w of (w', os) \<Rightarrow> Inr (w', os, 0))
          else if cmd = ''list'' then
            (case listTasks w of Inl e \<Rightarrow> Inl e | Inr os \<Rightarrow> Inr (w, os, 0))
          else if cmd = ''done'' then
            (if rest = [] then Inr (w, [Stdout (''Usage: '' @ prog @ '' done <task_id>'' @ [newline])], 1)
             else if atoi (hd rest) \<le>s 0 then Inr (w, invalid_id, 1)
             else case modifyTaskStatus (atoi (hd rest)) True w of
                    Inl e \<Rightarrow> Inl e | Inr (w', os) \<Rightarrow> Inr (w', os, 0))
          else if cmd = ''pending'' then
            (if rest = [] then Inr (w, [Stdout (''Usage: '' @ prog @ '' pending <task_id>'' @ [newline])], 1)
             else if atoi (hd rest) \<le>s 0 then Inr (w, invalid_id, 1)
             else case modifyTaskStatus (atoi (hd rest)) False w of
                    Inl e \<Rightarrow> Inl e | Inr (w', os) \<Rightarrow> Inr (w', os, 0))
          else if cmd = ''delete'' then
            (if rest = [] then Inr (w, [Stdout (''Usage: '' @ prog @ '' delete <task_id>'' @ [newline])], 1)
             else if atoi (hd rest) \<le>s 0 then Inr (w, invalid_id, 1)
             else case deleteTask (atoi (hd rest)) w of (w', os) \<Rightarrow> Inr (w', os, 0))
          else Inr (w, Stdout (''Unknown command: '' @ cmd @ [newline]) # usage prog, 1))"

section \<open>Notions used in the statements\<close>

text \<open>The ids that \<^verbatim>\<open>"%d,"\<close> reads at the beginning of the lines of a file, in order.\<close>

definition parsed_ids :: "string \<Rightarrow> cint list" where
  "parsed_ids content = List.map_filter sscanf_id (read_lines content)"

text \<open>
  A line that \<^verbatim>\<open>modifyTaskStatus\<close> takes for the task \<open>taskId\<close>, and what the body of its
  loop writes for one line.
\<close>

definition targets :: "cint \<Rightarrow> string \<Rightarrow> bool" where
  "targets taskId line \<longleftrightarrow>
     (case sscanf_task line of Inr (Some (tid, status, description)) \<Rightarrow> tid = taskId | _ \<Rightarrow> False)"

definition rewrite_line :: "cint \<Rightarrow> bool \<Rightarrow> string \<Rightarrow> string" where
  "rewrite_line taskId complete line =
     (case sscanf_task line of
        Inr (Some (tid, status, description)) \<Rightarrow>
          if tid = taskId
          then printf_d tid @ '','' @ printf_d (if complete then 1 else 0) @ '','' @ description @ [newline]
          else line
      | _ \<Rightarrow> line)"

text \<open>
  A line of a text file that the line buffer holds whole: it ends with its newline, has
  no other newline and no NUL byte, and is at most \<open>LINE_SIZE - 1\<close> bytes long.
\<close>

definition fits_line :: "string \<Rightarrow> bool" where
  "fits_line l \<longleftrightarrow>
     l \<noteq> [] \<and> length l < LINE_SIZE \<and> newline \<notin> set (butlast l) \<and> last l = newline \<and> NUL \<notin> set l"

text \<open>
  The pieces into which \<^verbatim>\<open>fgets\<close> cuts a file without NUL bytes: every piece but the
  last ends with a newline or fills the buffer.
\<close>

fun chunks_ok :: "string list \<Rightarrow> bool" where
  "chunks_ok [] = True"
| "chunks_ok (l # ls) =
     (l \<noteq> [] \<and> NUL \<notin> set l \<and> length l < LINE_SIZE \<and> newline \<notin> set (butlast l)
      \<and> (last l = newline \<or> Suc (length l) = LINE_SIZE \<or> ls = []) \<and> chunks_ok ls)"

text \<open>A process environment in which every system call succeeds, with the given task file.\<close>

definition env :: "string option \<Rightarrow> world" where
  "env file = \<lparr>home_set = True, dir_ok = True, writable = True, tasks = file\<rparr>"

text \<open>Example files for the concrete instances below.\<close>

definition store_a_b :: string where
  "store_a_b = ''1,0,a'' @ [newline] @ ''3,0,b'' @ [newline]"

definition store_bad_status :: string where
  "store_bad_status = ''3,x,y'' @ [newline]"

definition store_nul :: string where
  "store_nul = ''a'' @ [NUL] @ ''b'' @ [newline]"

definition store_long :: string where
  "store_long = replicate 275 (CHR ''x'') @ ''1,0,t'' @ [newline]"

definition store_big_status :: string where
  "store_big_status = ''1,4294967297,x'' @ [newline]"

section \<open>Lemmas: reading lines\<close>

lemma read_lines_Nil: "read_lines [] = []"
  by (simp add: read_lines.simps fgets_def)

lemma fgets_take_append: "fgets_take n s = (b, r) \<Longrightarrow> b @ r = s"
  by (induction n s arbitrary: b r rule: fgets_take.induct) (auto split: if_splits prod.splits)

lemma c_str_id: "NUL \<notin> set b \<Longrightarrow> c_str b = b"
  by (auto simp: c_str_def)

lemma concat_read_lines: "NUL \<notin> set s \<Longrightarrow> concat (read_lines s) = s"
proof (induction s rule: read_lines.induct)
  case (1 stream)
  show ?case
  proof (cases "stream = []")
    case True
    then show ?thesis by (simp add: read_lines_Nil)
  next
    case False
    obtain b r where br: "fgets_take (LINE_SIZE - 1) stream = (b, r)"
      by (cases "fgets_take (LINE_SIZE - 1) stream")
    then have app: "b @ r = stream" by (rule fgets_take_append)
    with "1.prems" have nb: "NUL \<notin> set b" and nr: "NUL \<notin> set r" by auto
    from False br have fg: "fgets LINE_SIZE stream = Some (c_str b, r)"
      by (simp add: fgets_def)
    from "1.IH" [OF fg refl nr] have "concat (read_lines r) = r" .
    with fg nb app show ?thesis
      by (simp add: read_lines.simps [of stream] c_str_id)
  qed
qed

lemma next_id_loop_append:
  "next_id_loop m (xs @ ys) = next_id_loop (next_id_loop m xs) ys"
  by (induction xs arbitrary: m) (auto split: option.splits)

lemma delete_loop_eq:
  "delete_loop t ls temp found =
     (temp @ concat (filter (\<lambda>l. sscanf_id l \<noteq> Some t) ls), found \<or> (\<exists>l\<in>set ls. sscanf_id l = Some t))"
  by (induction ls arbitrary: temp found) (auto split: option.splits)

lemma rewrite_line_None: "sscanf_task l = Inr None \<Longrightarrow> rewrite_line t c l = l"
  by (simp add: rewrite_line_def)

lemma rewrite_line_Some:
  "sscanf_task l = Inr (Some (i, s, d)) \<Longrightarrow>
   rewrite_line t c l =
     (if i = t then printf_d i @ '','' @ printf_d (if c then 1 else 0) @ '','' @ d @ [newline] else l)"
  by (simp add: rewrite_line_def)

lemma targets_None: "sscanf_task l = Inr None \<Longrightarrow> \<not> targets t l"
  by (simp add: targets_def)

lemma targets_Some: "sscanf_task l = Inr (Some (i, s, d)) \<Longrightarrow> targets t l \<longleftrightarrow> i = t"
  by (auto simp: targets_def)

lemma modify_loop_eq:
  "modify_loop t c ls temp found =
     (if \<exists>l\<in>set ls. sscanf_task l = Inl BufferOverflow then Inl BufferOverflow
      else Inr (temp @ concat (map (rewrite_line t c) ls), found \<or> (\<exists>l\<in>set ls. targets t l)))"
proof (induction ls arbitrary: temp found)
  case Nil
  then show ?case by simp
next
  case (Cons l ls)
  show ?case
  proof (cases "sscanf_task l")
    case (Inl e)
    then show ?thesis by (cases e) simp
  next
    case (Inr r)
    show ?thesis
    proof (cases r)
      case None
      with Inr show ?thesis
        by (simp add: Cons rewrite_line_None targets_None)
    next
      case (Some p)
      obtain i s d where p: "p = (i, s, d)" by (cases p)
      with Inr Some have st: "sscanf_task l = Inr (Some (i, s, d))" by simp
      show ?thesis
        by (simp add: st Cons rewrite_line_Some [OF st] targets_Some [OF st])
    qed
  qed
qed

lemma list_loop_eq:
  "list_loop ls =
     (if \<exists>l\<in>set ls. sscanf_task l = Inl BufferOverflow then Inl BufferOverflow
      else Inr (List.map_filter (\<lambda>l. case sscanf_task l of Inr r \<Rightarrow> r | Inl e \<Rightarrow> None) ls))"
proof (induction ls)
  case Nil
  then show ?case by simp
next
  case (Cons l ls)
  show ?case
  proof (cases "sscanf_task l")
    case (Inl e)
    then show ?thesis by (cases e) simp
  next
    case (Inr r)
    then show ?thesis
      by (cases r) (auto simp: Cons)
  qed
qed

lemma digit_of_digit_char: "d < 10 \<Longrightarrow> digit_of (digit_char d) = d"
  by (simp add: digit_of_def digit_char_def)

lemma isdigit_digit_char: "d < 10 \<Longrightarrow> isdigit (digit_char d)"
  by (simp add: isdigit_def digit_char_def)

lemma decimal_append: "decimal acc (xs @ ys) = decimal (decimal acc xs) ys"
  by (induction xs arbitrary: acc) auto

lemma decimal_show_nat: "decimal 0 (show_nat n) = n"
proof (induction n rule: show_nat.induct)
  case (1 n)
  show ?case
  proof (cases "n < 10")
    case True
    then show ?thesis by (simp add: show_nat.simps [of n] digit_of_digit_char)
  next
    case False
    with "1.IH" have "decimal 0 (show_nat (n div 10)) = n div 10" by simp
    with False show ?thesis
      by (simp add: show_nat.simps [of n] decimal_append digit_of_digit_char)
  qed
qed

lemma show_nat_digits: "c \<in> set (show_nat n) \<Longrightarrow> isdigit c"
proof (induction n rule: show_nat.induct)
  case (1 n)
  then show ?case
    by (cases "n < 10") (auto simp: show_nat.simps [of n] isdigit_digit_char)
qed

lemma show_nat_not_Nil: "show_nat n \<noteq> []"
  by (simp add: show_nat.simps [of n])

lemma length_show_nat: "n < 10 ^ k \<Longrightarrow> 0 < k \<Longrightarrow> length (show_nat n) \<le> k"
proof (induction n arbitrary: k rule: show_nat.induct)
  case (1 n)
  show ?case
  proof (cases "n < 10")
    case True
    with "1.prems" show ?thesis by (simp add: show_nat.simps [of n])
  next
    case False
    obtain j where k: "k = Suc j" using "1.prems" by (cases k) auto
    with False "1.prems" have j: "0 < j" by (cases j) auto
    from "1.prems" k have "n div 10 < 10 ^ j" by (simp add: less_mult_imp_div_less mult.commute)
    from "1.IH" [OF False this j] k False show ?thesis
      by (simp add: show_nat.simps [of n])
  qed
qed

lemma isdigit_not_special:
  "isdigit c \<Longrightarrow> \<not> isspace c \<and> c \<noteq> CHR ''-'' \<and> c \<noteq> CHR ''+'' \<and> c \<noteq> CHR '','' \<and> c \<noteq> newline \<and> c \<noteq> NUL"
  by (auto simp: isdigit_def isspace_def)

lemma not_isdigit_comma [simp]: "\<not> isdigit (CHR '','')" "\<not> isdigit newline"
  by (simp_all add: isdigit_def)

lemma takeWhile_digits:
  "(\<And>c. c \<in> set ds \<Longrightarrow> isdigit c) \<Longrightarrow> r = [] \<or> \<not> isdigit (hd r) \<Longrightarrow>
   takeWhile isdigit (ds @ r) = ds \<and> dropWhile isdigit (ds @ r) = r"
  by (cases r) auto

lemma strtol_clamp_sint: "strtol_clamp (sint (v :: cint)) = sint v"
proof -
  have "- (2 ^ 31) \<le> sint v" "sint v < 2 ^ 31"
    using sint_range_size [of v] by (simp_all add: word_size)
  then show ?thesis
    by (simp add: strtol_clamp_def)
qed

lemma scan_int_digits:
  assumes ds: "\<And>c. c \<in> set ds \<Longrightarrow> isdigit c" and ne: "ds \<noteq> []"
    and r: "r = [] \<or> \<not> isdigit (hd r)"
  shows "scan_int (ds @ r) = Some (long_to_int (strtol_clamp (int (decimal 0 ds))), r)"
    and "scan_int (CHR ''-'' # ds @ r) = Some (long_to_int (strtol_clamp (- int (decimal 0 ds))), r)"
proof -
  obtain d ds' where d: "ds = d # ds'" using ne by (cases ds) auto
  with ds have dd: "isdigit d" by simp
  note sp = isdigit_not_special [OF dd]
  from takeWhile_digits [OF ds r]
  have tw: "takeWhile isdigit (ds @ r) = ds" and dw: "dropWhile isdigit (ds @ r) = r" by simp_all
  from sp d have dws: "dropWhile isspace (ds @ r) = ds @ r" by simp
  have h: "hd (ds @ r) = d" using d by simp
  show "scan_int (ds @ r) = Some (long_to_int (strtol_clamp (int (decimal 0 ds))), r)"
    unfolding scan_int_def Let_def dws using sp ne by (simp add: tw dw h)
  have dws2: "dropWhile isspace (CHR ''-'' # ds @ r) = CHR ''-'' # ds @ r"
    by (simp add: isspace_def)
  show "scan_int (CHR ''-'' # ds @ r) = Some (long_to_int (strtol_clamp (- int (decimal 0 ds))), r)"
    unfolding scan_int_def Let_def dws2 using ne by (simp add: tw dw)
qed

lemma scan_int_printf_d:
  assumes r: "r = [] \<or> \<not> isdigit (hd r)"
  shows "scan_int (printf_d v @ r) = Some (v, r)"
proof (cases "sint v < 0")
  case True
  have "scan_int (CHR ''-'' # show_nat (nat (- sint v)) @ r)
        = Some (long_to_int (strtol_clamp (- int (decimal 0 (show_nat (nat (- sint v)))))), r)"
    by (rule scan_int_digits (2) [OF show_nat_digits show_nat_not_Nil r])
  with True show ?thesis
    by (simp add: printf_d_def show_int_def decimal_show_nat strtol_clamp_sint long_to_int_def)
next
  case False
  have "scan_int (show_nat (nat (sint v)) @ r)
        = Some (long_to_int (strtol_clamp (int (decimal 0 (show_nat (nat (sint v)))))), r)"
    by (rule scan_int_digits (1) [OF show_nat_digits show_nat_not_Nil r])
  with False show ?thesis
    by (simp add: printf_d_def show_int_def decimal_show_nat strtol_clamp_sint long_to_int_def)
qed

lemma printf_d_chars: "c \<in> set (printf_d v) \<Longrightarrow> isdigit c \<or> c = CHR ''-''"
  by (auto simp: printf_d_def show_int_def dest: show_nat_digits split: if_splits)

lemma printf_d_no_special:
  "NUL \<notin> set (printf_d v)" "newline \<notin> set (printf_d v)" "CHR '','' \<notin> set (printf_d v)"
  using printf_d_chars [of _ v] isdigit_not_special by fastforce+

lemma length_printf_d: "length (printf_d v) \<le> 11"
proof -
  have b: "- (2 ^ 31) \<le> sint v" "sint v < 2 ^ 31"
    using sint_range_size [of v] by (simp_all add: word_size)
  have "nat (- sint v) < 10 ^ 10" "nat (sint v) < 10 ^ 10"
    using b by simp_all
  then have "length (show_nat (nat (- sint v))) \<le> 10" "length (show_nat (nat (sint v))) \<le> 10"
    by (simp_all add: length_show_nat)
  then show ?thesis
    by (simp add: printf_d_def show_int_def)
qed

lemma sscanf_task_printed:
  assumes "d \<noteq> []" "newline \<notin> set d" "length d < MAX_DESCRIPTION_LEN" "r = [] \<or> hd r = newline"
  shows "sscanf_task (printf_d i @ '','' @ printf_d s @ '','' @ d @ r) = Inr (Some (i, s, d))"
proof -
  have 1: "scan_int (printf_d i @ ('','' @ printf_d s @ '','' @ d @ r)) = Some (i, '','' @ printf_d s @ '','' @ d @ r)"
    by (rule scan_int_printf_d) simp
  have 2: "scan_int (printf_d s @ ('','' @ d @ r)) = Some (s, '','' @ d @ r)"
    by (rule scan_int_printf_d) simp
  have 3: "takeWhile (\<lambda>c. c \<noteq> newline) (d @ r) = d"
  proof -
    from assms(4) have "takeWhile (\<lambda>c. c \<noteq> newline) r = []"
      by (cases r) auto
    with assms(2) show ?thesis
      by (induction d) auto
  qed
  from 1 2 3 assms(1,3) show ?thesis
    by (simp add: sscanf_task_def)
qed

lemma fgets_take_Nil [simp]: "fgets_take n [] = ([], [])"
  by (cases n) auto

lemma fgets_take_chunk:
  "l \<noteq> [] \<Longrightarrow> length l \<le> n \<Longrightarrow> newline \<notin> set (butlast l) \<Longrightarrow>
   last l = newline \<or> length l = n \<or> s = [] \<Longrightarrow> fgets_take n (l @ s) = (l, s)"
proof (induction l arbitrary: n)
  case Nil
  then show ?case by simp
next
  case (Cons c l)
  then obtain m where n: "n = Suc m" by (cases n) auto
  show ?case
  proof (cases "l = []")
    case True
    with Cons.prems n show ?thesis by auto
  next
    case False
    with Cons.prems n have "fgets_take m (l @ s) = (l, s)"
      by (intro Cons.IH) auto
    with False Cons.prems n show ?thesis by auto
  qed
qed

lemma read_lines_chunk:
  assumes "l \<noteq> []" "length l < LINE_SIZE" "newline \<notin> set (butlast l)"
    "last l = newline \<or> Suc (length l) = LINE_SIZE \<or> s = []"
  shows "read_lines (l @ s) = c_str l # read_lines s"
proof -
  have "fgets_take (LINE_SIZE - 1) (l @ s) = (l, s)"
    using assms by (intro fgets_take_chunk) auto
  with assms(1) show ?thesis
    by (simp add: read_lines.simps [of "l @ s"] fgets_def)
qed

lemma fgets_take_props:
  "fgets_take n s = (b, r) \<Longrightarrow> s \<noteq> [] \<Longrightarrow> 0 < n \<Longrightarrow>
   b \<noteq> [] \<and> length b \<le> n \<and> newline \<notin> set (butlast b) \<and> (last b = newline \<or> length b = n \<or> r = [])"
proof (induction n s arbitrary: b r rule: fgets_take.induct)
  case (1 cs)
  then show ?case by simp
next
  case (2 n)
  then show ?case by simp
next
  case (3 n c cs)
  show ?case
  proof (cases "c = newline")
    case True
    with 3 show ?thesis by auto
  next
    case False
    obtain b' r' where br: "fgets_take n cs = (b', r')" by (cases "fgets_take n cs")
    with False "3.prems" have b: "b = c # b'" and r: "r = r'" by auto
    show ?thesis
    proof (cases "cs = [] \<or> n = 0")
      case True
      with br b r False show ?thesis by auto
    next
      case False
      with "3.IH" [OF \<open>c \<noteq> newline\<close> br] have
        "b' \<noteq> [] \<and> length b' \<le> n \<and> newline \<notin> set (butlast b') \<and> (last b' = newline \<or> length b' = n \<or> r' = [])"
        by simp
      with b r \<open>c \<noteq> newline\<close> show ?thesis by auto
    qed
  qed
qed

lemma read_lines_eq_Nil: "read_lines s = [] \<longleftrightarrow> s = []"
  by (auto simp: read_lines.simps [of s] fgets_def split: prod.splits)

lemma chunks_ok_read_lines: "NUL \<notin> set s \<Longrightarrow> chunks_ok (read_lines s)"
proof (induction s rule: read_lines.induct)
  case (1 stream)
  show ?case
  proof (cases "stream = []")
    case True
    then show ?thesis by (simp add: read_lines_Nil)
  next
    case False
    obtain b r where br: "fgets_take (LINE_SIZE - 1) stream = (b, r)"
      by (cases "fgets_take (LINE_SIZE - 1) stream")
    then have app: "b @ r = stream" by (rule fgets_take_append)
    with "1.prems" have nb: "NUL \<notin> set b" and nr: "NUL \<notin> set r" by auto
    from False br have fg: "fgets LINE_SIZE stream = Some (c_str b, r)"
      by (simp add: fgets_def)
    from "1.IH" [OF fg refl nr] have ih: "chunks_ok (read_lines r)" .
    have "0 < LINE_SIZE - 1" by (simp add: LINE_SIZE_def MAX_DESCRIPTION_LEN_def)
    from fgets_take_props [OF br False this]
    have "b \<noteq> [] \<and> length b < LINE_SIZE \<and> newline \<notin> set (butlast b)
          \<and> (last b = newline \<or> Suc (length b) = LINE_SIZE \<or> r = [])"
      by (auto simp: LINE_SIZE_def MAX_DESCRIPTION_LEN_def)
    with fg nb ih show ?thesis
      by (simp add: read_lines.simps [of stream] c_str_id read_lines_eq_Nil)
  qed
qed

lemma read_lines_concat: "chunks_ok ls \<Longrightarrow> read_lines (concat ls) = ls"
proof (induction ls)
  case Nil
  then show ?case by (simp add: read_lines_Nil)
next
  case (Cons l ls)
  then have "read_lines (l @ concat ls) = c_str l # read_lines (concat ls)"
    by (intro read_lines_chunk) auto
  with Cons show ?case by (simp add: c_str_id)
qed

lemma fgets_take_aligned:
  "fgets_take n pre = (b, r) \<Longrightarrow> pre \<noteq> [] \<Longrightarrow> last pre = newline \<Longrightarrow>
   fgets_take n (pre @ s) = (b, r @ s) \<and> (r = [] \<or> last r = newline)"
proof (induction n pre arbitrary: b r rule: fgets_take.induct)
  case (1 cs)
  then show ?case by auto
next
  case (2 n)
  then show ?case by simp
next
  case (3 n c cs)
  show ?case
  proof (cases "c = newline")
    case True
    with "3.prems" show ?thesis by (auto split: if_splits)
  next
    case False
    with "3.prems" have cs: "cs \<noteq> []" "last cs = newline" by (auto split: if_splits)
    obtain b' r' where br: "fgets_take n cs = (b', r')" by (cases "fgets_take n cs")
    from "3.IH" [OF False br cs] br False "3.prems" show ?thesis by auto
  qed
qed

lemma read_lines_aligned:
  "pre = [] \<or> last pre = newline \<Longrightarrow> read_lines (pre @ s) = read_lines pre @ read_lines s"
proof (induction pre rule: read_lines.induct)
  case (1 stream)
  show ?case
  proof (cases "stream = []")
    case True
    then show ?thesis by (simp add: read_lines_Nil)
  next
    case False
    with "1.prems" have l: "last stream = newline" by simp
    obtain b r where br: "fgets_take (LINE_SIZE - 1) stream = (b, r)"
      by (cases "fgets_take (LINE_SIZE - 1) stream")
    from fgets_take_aligned [OF br False l]
    have br2: "fgets_take (LINE_SIZE - 1) (stream @ s) = (b, r @ s)" and r: "r = [] \<or> last r = newline"
      by simp_all
    from False br have fg: "fgets LINE_SIZE stream = Some (c_str b, r)"
      by (simp add: fgets_def)
    from "1.IH" [OF fg refl r] have "read_lines (r @ s) = read_lines r @ read_lines s" .
    with fg br2 False show ?thesis
      by (simp add: read_lines.simps [of stream] read_lines.simps [of "stream @ s"] fgets_def)
  qed
qed

lemma read_lines_line:
  assumes "pre = [] \<or> last pre = newline" "fits_line l"
  shows "read_lines (pre @ l @ post) = read_lines pre @ l # read_lines post"
proof -
  from assms(2) have "read_lines (l @ post) = c_str l # read_lines post"
    by (intro read_lines_chunk) (auto simp: fits_line_def)
  with assms show ?thesis
    by (simp add: read_lines_aligned c_str_id fits_line_def)
qed

section \<open>Lemmas: the next id\<close>

lemma Max_insert2: "finite S \<Longrightarrow> Max (insert (max a b) S) = max a (Max (insert b S))" for a b :: int
  by (cases "S = {}") (simp_all add: max.assoc)

lemma sint_next_id_loop:
  "sint (next_id_loop m ls) = Max (set (sint m # map sint (List.map_filter sscanf_id ls)))"
proof (induction ls arbitrary: m)
  case Nil
  then show ?case by simp
next
  case (Cons l ls)
  show ?case
  proof (cases "sscanf_id l")
    case None
    then show ?thesis by (simp add: Cons)
  next
    case (Some i)
    have "sint (if m <s i then i else m) = max (sint m) (sint i)"
      by (simp add: word_sless_alt max_def)
    with Some show ?thesis
      by (simp add: Cons Max_insert2)
  qed
qed

lemma sint_getNextTaskId:
  assumes "\<forall>i\<in>set (parsed_ids content). sint i < 2 ^ 31 - 1"
  shows "sint (getNextTaskId (Some content)) = Max (set (0 # map sint (parsed_ids content))) + 1"
proof -
  let ?M = "Max (set (0 # map sint (parsed_ids content)))"
  have m: "sint (next_id_loop 0 (read_lines content)) = ?M"
    by (simp add: sint_next_id_loop parsed_ids_def)
  have "?M \<in> set (0 # map sint (parsed_ids content))"
    by (rule Max_in) simp_all
  with assms have "?M < 2 ^ 31 - 1" by auto
  moreover have "0 \<le> ?M" by (rule Max_ge) simp_all
  ultimately have b: "0 \<le> sint (next_id_loop 0 (read_lines content))" "sint (next_id_loop 0 (read_lines content)) < 2 ^ 31 - 1"
    using m by simp_all
  have "sint (next_id_loop 0 (read_lines content) + 1) = sint (next_id_loop 0 (read_lines content)) + 1"
    using b by (simp add: sint_word_ariths signed_take_bit_int_eq_self)
  with m show ?thesis by (simp add: getNextTaskId_def)
qed

section \<open>Lemmas: the operations in closed form\<close>

lemma env_update: "(env f)\<lparr>tasks := g\<rparr> = env g"
  by (simp add: env_def)

lemma modifyTaskStatus_eq:
  assumes "tasks w = Some content" "home_set w" "writable w"
  shows "modifyTaskStatus t c w =
     (if \<exists>l\<in>set (read_lines content). sscanf_task l = Inl BufferOverflow then Inl BufferOverflow
      else Inr (w\<lparr>tasks := Some (concat (map (rewrite_line t c) (read_lines content)))\<rparr>,
                [Stdout (if \<exists>l\<in>set (read_lines content). targets t l
                         then ''Task ID '' @ printf_d t @ '' marked as ''
                              @ (if c then ''DONE'' else ''PENDING'') @ ''.'' @ [newline]
                         else ''Task ID '' @ printf_d t @ '' not found.'' @ [newline])]))"
  using assms by (simp add: modifyTaskStatus_def modify_loop_eq)

lemma listTasks_eq:
  assumes "tasks w = Some content"
  shows "listTasks w =
     (if \<exists>l\<in>set (read_lines content). sscanf_task l = Inl BufferOverflow then Inl BufferOverflow
      else Inr (list_output (List.map_filter (\<lambda>l. case sscanf_task l of Inr r \<Rightarrow> r | Inl e \<Rightarrow> None) (read_lines content))))"
  using assms by (simp add: listTasks_def list_loop_eq)

lemma map_filter_append: "List.map_filter f (xs @ ys) = List.map_filter f xs @ List.map_filter f ys"
  by (simp add: List.map_filter_def)

lemma sscanf_task_cases:
  obtains "sscanf_task l = Inl BufferOverflow" | "sscanf_task l = Inr None"
  | i s d where "sscanf_task l = Inr (Some (i, s, d))"
proof (cases "sscanf_task l")
  case (Inl e)
  then show ?thesis using that(1) by (cases e) simp
next
  case (Inr r)
  then show ?thesis using that(2,3) by (cases r) auto
qed

lemma not_targets_rewrite: "\<not> targets t l \<Longrightarrow> rewrite_line t c l = l"
  by (cases l rule: sscanf_task_cases) (simp_all add: rewrite_line_def targets_def)

lemma scan_int_rest: "scan_int x = Some (v, r) \<Longrightarrow> set r \<subseteq> set x"
proof -
  assume a: "scan_int x = Some (v, r)"
  let ?s1 = "dropWhile isspace x"
  let ?s2 = "if ?s1 \<noteq> [] \<and> (hd ?s1 = CHR ''-'' \<or> hd ?s1 = CHR ''+'') then tl ?s1 else ?s1"
  from a have r: "r = dropWhile isdigit ?s2"
    by (auto simp: scan_int_def Let_def split: if_splits)
  have tl_sub: "set (tl xs) \<subseteq> set xs" for xs :: string
    by (cases xs) auto
  have "set ?s2 \<subseteq> set ?s1"
    using tl_sub [of ?s1] by auto
  moreover have "set ?s1 \<subseteq> set x"
    by (auto dest: set_dropWhileD)
  moreover have "set r \<subseteq> set ?s2"
    unfolding r by (auto dest: set_dropWhileD)
  ultimately show ?thesis by blast
qed

lemma sscanf_task_Some_props:
  assumes "sscanf_task l = Inr (Some (i, s, d))"
  shows "d \<noteq> []" "newline \<notin> set d" "length d < MAX_DESCRIPTION_LEN" "set d \<subseteq> set l"
proof -
  from assms obtain r1 r2 where
    1: "scan_int l = Some (i, r1)" and 2: "scan_int (tl r1) = Some (s, r2)" and
    d: "d = takeWhile (\<lambda>c. c \<noteq> newline) (tl r2)" and ne: "d \<noteq> []" and
    len: "length d < MAX_DESCRIPTION_LEN" and n1: "r1 \<noteq> []" and n2: "r2 \<noteq> []"
    by (auto simp: sscanf_task_def Let_def split: option.splits if_splits)
  show "d \<noteq> []" by (rule ne)
  show "length d < MAX_DESCRIPTION_LEN" by (rule len)
  show "newline \<notin> set d"
    unfolding d by (auto dest: set_takeWhileD)
  have "set d \<subseteq> set (tl r2)"
    unfolding d by (auto dest: set_takeWhileD)
  also have "\<dots> \<subseteq> set r2" by (cases r2) auto
  also have "\<dots> \<subseteq> set (tl r1)" using 2 by (rule scan_int_rest)
  also have "\<dots> \<subseteq> set r1" by (cases r1) auto
  also have "\<dots> \<subseteq> set l" using 1 by (rule scan_int_rest)
  finally show "set d \<subseteq> set l" .
qed

lemma printf_d_bit: "printf_d (if c then 1 else 0) = (if c then ''1'' else ''0'')"
proof -
  have "printf_d 1 = ''1''" "printf_d 0 = ''0''" by code_simp+
  then show ?thesis by simp
qed

lemma rewrite_line_fixed:
  assumes "sscanf_task l \<noteq> Inl BufferOverflow"
  shows "sscanf_task (rewrite_line t c l) \<noteq> Inl BufferOverflow"
    and "rewrite_line t c (rewrite_line t c l) = rewrite_line t c l"
    and "targets t (rewrite_line t c l) \<longleftrightarrow> targets t l"
proof -
  consider "sscanf_task l = Inr None" | i s d where "sscanf_task l = Inr (Some (i, s, d))" "i \<noteq> t"
    | s d where "sscanf_task l = Inr (Some (t, s, d))"
    using assms by (cases l rule: sscanf_task_cases) auto
  then have "sscanf_task (rewrite_line t c l) \<noteq> Inl BufferOverflow
      \<and> rewrite_line t c (rewrite_line t c l) = rewrite_line t c l
      \<and> (targets t (rewrite_line t c l) \<longleftrightarrow> targets t l)"
  proof cases
    case 1
    then show ?thesis by (simp add: rewrite_line_None)
  next
    case 2
    then show ?thesis by (simp add: rewrite_line_Some [OF 2(1)])
  next
    case 3
    note p = sscanf_task_Some_props [OF 3]
    have st: "sscanf_task (printf_d t @ CHR '','' # printf_d b @ CHR '','' # d @ [newline]) = Inr (Some (t, b, d))" for b
      using sscanf_task_printed [OF p(1,2,3), of "[newline]" t b] by simp
    show ?thesis
      by (cases c)
        (simp_all add: rewrite_line_Some [OF 3] rewrite_line_Some [OF st] targets_Some [OF st] targets_Some [OF 3] st)
  qed
  then show "sscanf_task (rewrite_line t c l) \<noteq> Inl BufferOverflow"
    and "rewrite_line t c (rewrite_line t c l) = rewrite_line t c l"
    and "targets t (rewrite_line t c l) \<longleftrightarrow> targets t l"
    by simp_all
qed

lemma rewrite_line_chunk:
  assumes "sscanf_task l \<noteq> Inl BufferOverflow"
    and "l \<noteq> []" "NUL \<notin> set l" "length l < LINE_SIZE" "newline \<notin> set (butlast l)"
  shows "rewrite_line t c l \<noteq> [] \<and> NUL \<notin> set (rewrite_line t c l) \<and> length (rewrite_line t c l) < LINE_SIZE
         \<and> newline \<notin> set (butlast (rewrite_line t c l))
         \<and> (rewrite_line t c l = l \<or> last (rewrite_line t c l) = newline)"
proof (cases "rewrite_line t c l = l")
  case True
  with assms show ?thesis by simp
next
  case False
  then obtain s d where 3: "sscanf_task l = Inr (Some (t, s, d))"
    using assms(1) by (cases l rule: sscanf_task_cases) (auto simp: rewrite_line_def split: if_splits)
  let ?l' = "printf_d t @ '','' @ printf_d (if c then 1 else 0) @ '','' @ d @ [newline]"
  note p = sscanf_task_Some_props [OF 3]
  have l': "rewrite_line t c l = ?l'" by (simp add: rewrite_line_Some [OF 3])
  have nul: "NUL \<notin> set d" using p(4) assms(3) by auto
  have len: "length ?l' < LINE_SIZE"
    using length_printf_d [of t] p(3) by (simp add: printf_d_bit LINE_SIZE_def MAX_DESCRIPTION_LEN_def)
  have "butlast ?l' = printf_d t @ '','' @ printf_d (if c then 1 else 0) @ '','' @ d"
    by (simp add: butlast_append)
  then have nl: "newline \<notin> set (butlast ?l')"
    using p(2) printf_d_no_special(2) [of t] by (simp add: printf_d_bit)
  have n0: "NUL \<notin> set ?l'"
    using nul printf_d_no_special(1) [of t] by (simp add: printf_d_bit)
  show ?thesis
    unfolding l' using len nl n0 by simp
qed

lemma chunks_ok_rewrite:
  "chunks_ok ls \<Longrightarrow> \<forall>l\<in>set ls. sscanf_task l \<noteq> Inl BufferOverflow \<Longrightarrow>
   chunks_ok (map (rewrite_line t c) ls)"
proof (induction ls)
  case Nil
  then show ?case by simp
next
  case (Cons l ls)
  then have "sscanf_task l \<noteq> Inl BufferOverflow" "l \<noteq> []" "NUL \<notin> set l" "length l < LINE_SIZE"
    "newline \<notin> set (butlast l)"
    by simp_all
  from rewrite_line_chunk [OF this, of t c] Cons show ?case
    by auto
qed

lemma deleteTask_eq:
  assumes "tasks w = Some content" "home_set w" "writable w"
  shows "deleteTask t w =
     (w\<lparr>tasks := Some (concat (filter (\<lambda>l. sscanf_id l \<noteq> Some t) (read_lines content)))\<rparr>,
      [Stdout (if \<exists>l\<in>set (read_lines content). sscanf_id l = Some t
               then ''Task ID '' @ printf_d t @ '' deleted.'' @ [newline]
               else ''Task ID '' @ printf_d t @ '' not found.'' @ [newline])])"
  using assms by (simp add: deleteTask_def delete_loop_eq)

lemma env_sel: "home_set (env f)" "dir_ok (env f)" "writable (env f)" "tasks (env f) = f"
  by (simp_all add: env_def)

lemma main_done:
  "home_set w \<Longrightarrow> dir_ok w \<Longrightarrow>
   main prog (''done'' # a # rest) w =
     (if atoi a \<le>s 0 then Inr (w, invalid_id, 1)
      else case modifyTaskStatus (atoi a) True w of Inl e \<Rightarrow> Inl e | Inr (w', os) \<Rightarrow> Inr (w', os, 0))"
  by (simp add: main_def)

lemma main_pending:
  "home_set w \<Longrightarrow> dir_ok w \<Longrightarrow>
   main prog (''pending'' # a # rest) w =
     (if atoi a \<le>s 0 then Inr (w, invalid_id, 1)
      else case modifyTaskStatus (atoi a) False w of Inl e \<Rightarrow> Inl e | Inr (w', os) \<Rightarrow> Inr (w', os, 0))"
  by (simp add: main_def)

lemma main_delete:
  "home_set w \<Longrightarrow> dir_ok w \<Longrightarrow>
   main prog (''delete'' # a # rest) w =
     (if atoi a \<le>s 0 then Inr (w, invalid_id, 1)
      else case deleteTask (atoi a) w of (w', os) \<Rightarrow> Inr (w', os, 0))"
  by (simp add: main_def)

lemma scan_int_consumed:
  assumes "scan_int x = Some (v, r)"
  shows "\<exists>p. x = p @ r \<and> CHR '','' \<notin> set p"
proof -
  define s1 where "s1 = dropWhile isspace x"
  define sg where "sg = (if s1 \<noteq> [] \<and> (hd s1 = CHR ''-'' \<or> hd s1 = CHR ''+'') then [hd s1] else [])"
  define s2 where "s2 = (if s1 \<noteq> [] \<and> (hd s1 = CHR ''-'' \<or> hd s1 = CHR ''+'') then tl s1 else s1)"
  from assms have r: "r = dropWhile isdigit s2"
    by (auto simp: scan_int_def Let_def s1_def s2_def split: if_splits)
  have 1: "takeWhile isspace x @ s1 = x"
    by (simp add: s1_def)
  have 2: "sg @ s2 = s1"
    by (simp add: sg_def s2_def)
  have 3: "takeWhile isdigit s2 @ r = s2"
    by (simp add: r)
  have "(takeWhile isspace x @ sg @ takeWhile isdigit s2) @ r
        = takeWhile isspace x @ sg @ takeWhile isdigit s2 @ r"
    by simp
  also have "\<dots> = takeWhile isspace x @ sg @ s2"
    by (simp only: 3)
  also have "\<dots> = takeWhile isspace x @ s1"
    by (simp only: 2)
  also have "\<dots> = x"
    by (simp only: 1)
  finally have x: "x = (takeWhile isspace x @ sg @ takeWhile isdigit s2) @ r"
    by simp
  have "c \<noteq> CHR '',''" if "c \<in> set (takeWhile isspace x)" for c
    using set_takeWhileD [OF that] by (auto simp: isspace_def)
  moreover have "c \<noteq> CHR '',''" if "c \<in> set (takeWhile isdigit s2)" for c
    using set_takeWhileD [OF that] isdigit_not_special [of c] by blast
  moreover have "c \<noteq> CHR '',''" if "c \<in> set sg" for c
    using that by (auto simp: sg_def split: if_splits)
  ultimately have "CHR '','' \<notin> set (takeWhile isspace x @ sg @ takeWhile isdigit s2)"
    by auto
  with x show ?thesis by blast
qed

lemma rest_at_first_comma:
  assumes "scan_int (a @ CHR '','' # y) = Some (v, r)" "CHR '','' \<notin> set a" "r \<noteq> []" "hd r = CHR '',''"
  shows "r = CHR '','' # y"
proof -
  from scan_int_consumed [OF assms(1)] obtain p where
    p: "a @ CHR '','' # y = p @ r" and np: "CHR '','' \<notin> set p" by blast
  from assms(3,4) obtain r' where r: "r = CHR '','' # r'" by (cases r) auto
  have "takeWhile (\<lambda>c. c \<noteq> CHR '','') (a @ CHR '','' # y) = a"
    using assms(2) by (induction a) auto
  moreover have "takeWhile (\<lambda>c. c \<noteq> CHR '','') (p @ CHR '','' # r') = p"
    using np by (induction p) auto
  ultimately have "p = a" using p r by simp
  with p r show ?thesis by simp
qed

lemma sscanf_task_no_description:
  assumes "CHR '','' \<notin> set a" "CHR '','' \<notin> set b"
  shows "sscanf_task (a @ '','' @ b @ '','' @ newline # r) = Inr None"
proof (cases "scan_int (a @ CHR '','' # b @ CHR '','' # newline # r)")
  case None
  then show ?thesis by (simp add: sscanf_task_def)
next
  case (Some p1)
  obtain i r1 where p1: "p1 = (i, r1)" by (cases p1)
  show ?thesis
  proof (cases "r1 = [] \<or> hd r1 \<noteq> CHR '',''")
    case True
    with Some p1 show ?thesis by (auto simp: sscanf_task_def)
  next
    case False
    with Some p1 assms(1) have r1: "r1 = CHR '','' # b @ CHR '','' # newline # r"
      by (intro rest_at_first_comma [of a _ i]) auto
    show ?thesis
    proof (cases "scan_int (b @ CHR '','' # newline # r)")
      case None
      with Some p1 r1 show ?thesis by (simp add: sscanf_task_def)
    next
      case (Some p2)
      obtain s r2 where p2: "p2 = (s, r2)" by (cases p2)
      show ?thesis
      proof (cases "r2 = [] \<or> hd r2 \<noteq> CHR '',''")
        case True
        with \<open>scan_int (a @ CHR '','' # b @ CHR '','' # newline # r) = Some p1\<close> p1 r1 Some p2
        show ?thesis by (auto simp: sscanf_task_def)
      next
        case False
        with Some p2 assms(2) have "r2 = CHR '','' # newline # r"
          by (intro rest_at_first_comma [of b _ s]) auto
        with \<open>scan_int (a @ CHR '','' # b @ CHR '','' # newline # r) = Some p1\<close> p1 r1 Some p2
        show ?thesis by (simp add: sscanf_task_def)
      qed
    qed
  qed
qed

lemma set_parsed_ids: "i \<in> set (parsed_ids content) \<longleftrightarrow> (\<exists>x\<in>set (read_lines content). sscanf_id x = Some i)"
proof -
  have "set (List.map_filter f xs) = {y. \<exists>x\<in>set xs. f x = Some y}" for f :: "string \<Rightarrow> cint option" and xs
    by (induction xs) (auto split: option.splits)
  then show ?thesis by (simp add: parsed_ids_def)
qed

lemma sscanf_id_printf_d: "sscanf_id (printf_d n @ CHR '','' # r) = Some n"
  using scan_int_printf_d [of "CHR '','' # r" n] by (simp add: sscanf_id_def)

section \<open>Id assignment\<close>

text \<open>
  Two tasks are added to an absent store, the second is deleted, a third is added: the
  third gets the id 2 that the second had.
\<close>

theorem addTask_reuses_deleted_id_counterexample:
  "tasks (fst (addTask ''b'' (fst (addTask ''a'' (env None)))))
     = Some (''1,0,a'' @ [newline] @ ''2,0,b'' @ [newline])
   \<and> tasks (fst (deleteTask 2 (fst (addTask ''b'' (fst (addTask ''a'' (env None)))))))
     = Some (''1,0,a'' @ [newline])
   \<and> tasks (fst (addTask ''c'' (fst (deleteTask 2 (fst (addTask ''b'' (fst (addTask ''a'' (env None)))))))))
     = Some (''1,0,a'' @ [newline] @ ''2,0,c'' @ [newline])"
  by code_simp

text \<open>
  C1, as amended: the parsed ids of a file are the integers that \<^verbatim>\<open>"%d,"\<close> reads at the
  beginning of the pieces \<^verbatim>\<open>fgets\<close> reads of it (a line of at most 275 bytes is one piece,
  a longer line is read in pieces of 275 bytes). When the file can be opened for
  appending, \<^verbatim>\<open>addTask\<close> appends a pending line whose id is one plus the largest of 0 and
  the parsed ids of the file as it is at that moment (parsed ids below \<^verbatim>\<open>INT_MAX\<close>), so the
  new id is greater than every parsed id. Nothing remembers a deleted id: when moreover
  \<^verbatim>\<open>HOME\<close> is set, the file has no NUL byte and is empty or ends with a newline, and the
  added line is one the line buffer holds whole (at most 275 bytes with its newline, no
  NUL byte), then deleting the task just added gives the file back as it was, and the
  next \<^verbatim>\<open>addTask\<close> assigns the same id again.
\<close>

theorem addTask_assigns_next_id:
  assumes "writable w"
    and "content = (case tasks w of None \<Rightarrow> [] | Some c \<Rightarrow> c)"
    and "\<forall>i\<in>set (parsed_ids content). sint i < 2 ^ 31 - 1"
  shows "tasks (fst (addTask description w))
           = Some (content @ printf_d (getNextTaskId (Some content)) @ '','' @ printf_d 0 @ '','' @ description @ [newline])
         \<and> sint (getNextTaskId (Some content)) = Max (set (0 # map sint (parsed_ids content))) + 1
         \<and> (\<forall>i\<in>set (parsed_ids content). i <s getNextTaskId (Some content))
         \<and> (home_set w \<and> NUL \<notin> set content \<and> (content = [] \<or> last content = newline)
              \<and> fits_line (printf_d (getNextTaskId (Some content)) @ '','' @ printf_d 0 @ '','' @ description @ [newline])
             \<longrightarrow> tasks (fst (deleteTask (getNextTaskId (Some content)) (fst (addTask description w)))) = Some content
                 \<and> tasks (fst (addTask description' (fst (deleteTask (getNextTaskId (Some content)) (fst (addTask description w))))))
                     = Some (content @ printf_d (getNextTaskId (Some content)) @ '','' @ printf_d 0 @ '','' @ description' @ [newline]))"
proof -
  let ?n = "getNextTaskId (Some content)"
  let ?l = "printf_d ?n @ '','' @ printf_d 0 @ '','' @ description @ [newline]"
  let ?M = "Max (set (0 # map sint (parsed_ids content)))"
  have n: "sint ?n = ?M + 1"
    using assms(3) by (rule sint_getNextTaskId)
  have less: "i <s ?n" if "i \<in> set (parsed_ids content)" for i
  proof -
    from that have "sint i \<le> ?M" by (intro Max_ge) simp_all
    with n show ?thesis by (simp add: word_sless_alt)
  qed
  have add: "addTask d v = (v\<lparr>tasks := Some (c @ printf_d (getNextTaskId (Some c)) @ '','' @ printf_d 0 @ '','' @ d @ [newline])\<rparr>,
                 [Stdout (''Task added: ID '' @ printf_d (getNextTaskId (Some c)) @ '' - '' @ [dquote] @ d @ [dquote, newline])])"
    if "writable v" "c = (case tasks v of None \<Rightarrow> [] | Some c \<Rightarrow> c)" for d v c
    using that by (simp add: addTask_def Let_def)
  have a: "tasks (fst (addTask description w)) = Some (content @ ?l)"
    by (simp add: add [OF assms(1,2)])
  have reuse: "tasks (fst (deleteTask ?n (fst (addTask description w)))) = Some content
       \<and> tasks (fst (addTask description' (fst (deleteTask ?n (fst (addTask description w))))))
           = Some (content @ printf_d ?n @ '','' @ printf_d 0 @ '','' @ description' @ [newline])"
    if h: "home_set w" and nul: "NUL \<notin> set content" and al: "content = [] \<or> last content = newline"
      and fl: "fits_line ?l"
  proof -
    let ?w1 = "fst (addTask description w)"
    have w1: "tasks ?w1 = Some (content @ ?l)" "home_set ?w1" "writable ?w1"
      using h assms(1) by (simp_all add: add [OF assms(1,2)])
    have "read_lines (content @ ?l @ []) = read_lines content @ ?l # read_lines []"
      using al fl by (rule read_lines_line)
    then have rl: "read_lines (content @ ?l) = read_lines content @ [?l]"
      by (simp add: read_lines_Nil)
    have idl: "sscanf_id ?l = Some ?n"
      using sscanf_id_printf_d [of ?n] by simp
    have keep: "filter (\<lambda>x. sscanf_id x \<noteq> Some ?n) (read_lines content) = read_lines content"
    proof -
      have "sscanf_id x \<noteq> Some ?n" if "x \<in> set (read_lines content)" for x
      proof
        assume "sscanf_id x = Some ?n"
        with that have "?n \<in> set (parsed_ids content)" by (auto simp: set_parsed_ids)
        then have "?n <s ?n" by (rule less)
        then show False by (simp add: word_sless_alt)
      qed
      then show ?thesis by simp
    qed
    let ?w2 = "fst (deleteTask ?n ?w1)"
    have w2: "tasks ?w2 = Some content" "writable ?w2"
      using w1(3) by (simp_all add: deleteTask_eq [OF w1] rl [simplified] idl [simplified] keep concat_read_lines [OF nul])
    then have c2: "content = (case tasks ?w2 of None \<Rightarrow> [] | Some c \<Rightarrow> c)"
      by simp
    have "tasks (fst (addTask description' ?w2))
           = Some (content @ printf_d ?n @ '','' @ printf_d 0 @ '','' @ description' @ [newline])"
      by (simp add: add [OF w2(2) c2])
    with w2(1) show ?thesis by simp
  qed
  from a n less reuse show ?thesis by blast
qed

theorem addTask_assigns_next_id_witness:
  "tasks (fst (addTask ''c'' (env (Some store_a_b)))) = Some (store_a_b @ ''4,0,c'' @ [newline])
   \<and> sint (getNextTaskId (Some store_a_b)) = 4
   \<and> parsed_ids store_a_b = [1, 3]
   \<and> tasks (fst (deleteTask 4 (fst (addTask ''c'' (env (Some store_a_b)))))) = Some store_a_b
   \<and> tasks (fst (addTask ''d'' (fst (deleteTask 4 (fst (addTask ''c'' (env (Some store_a_b))))))))
       = Some (store_a_b @ ''4,0,d'' @ [newline])"
proof -
  have ids: "parsed_ids store_a_b = [1, 3]" by code_simp
  have h1: "writable (env (Some store_a_b))" by (simp add: env_def)
  have h2: "store_a_b = (case tasks (env (Some store_a_b)) of None \<Rightarrow> [] | Some c \<Rightarrow> c)" by (simp add: env_def)
  have h3: "\<forall>i\<in>set (parsed_ids store_a_b). sint i < 2 ^ 31 - 1" by (simp add: ids)
  have n: "getNextTaskId (Some store_a_b) = 4" by code_simp
  have p: "printf_d 4 = ''4''" "printf_d 0 = ''0''" by code_simp+
  have g: "home_set (env (Some store_a_b))" "NUL \<notin> set store_a_b" "store_a_b = [] \<or> last store_a_b = newline"
    "fits_line (''4'' @ '','' @ ''0'' @ '','' @ ''c'' @ [newline])"
    by (simp_all add: env_def store_a_b_def fits_line_def LINE_SIZE_def MAX_DESCRIPTION_LEN_def)
  note t = addTask_assigns_next_id [OF h1 h2 h3, of "''c''" "''d''", unfolded n p]
  note t4 = t [THEN conjunct2, THEN conjunct2, THEN conjunct2, THEN mp, OF conjI [OF g(1) conjI [OF g(2) conjI [OF g(3) g(4)]]]]
  from t t4 show ?thesis
    by (simp add: ids n)
qed

section \<open>Deleting\<close>

text \<open>
  The line \<^verbatim>\<open>5 garbage\<close> is not a record (\<^verbatim>\<open>sscanf\<close> converts one field of three), and
  \<^verbatim>\<open>deleteTask 5\<close> removes it and reports the task deleted.
\<close>

theorem deleteTask_removes_malformed_line_counterexample:
  "sscanf_task (''5 garbage'' @ [newline]) = Inr None
   \<and> deleteTask 5 (env (Some (''5 garbage'' @ [newline])))
       = (env (Some []), [Stdout (''Task ID 5 deleted.'' @ [newline])])"
  by code_simp

text \<open>
  C2, as amended: \<^verbatim>\<open>deleteTask\<close> looks at the leading integer of a line only. A line
  \<open>l\<close> of the file that the line buffer holds whole is read as one line; it is left
  out when \<^verbatim>\<open>"%d,"\<close> reads \<open>taskId\<close> at its beginning, whatever follows, and written
  back unchanged otherwise, a line without a leading integer included. The lines
  before and after it are treated by the same rule.
\<close>

theorem deleteTask_omits_by_leading_id:
  assumes "tasks w = Some (pre @ l @ post)" "home_set w" "writable w"
    and "pre = [] \<or> last pre = newline" "fits_line l"
  shows "read_lines (pre @ l @ post) = read_lines pre @ [l] @ read_lines post
         \<and> tasks (fst (deleteTask taskId w))
             = Some (concat (filter (\<lambda>x. sscanf_id x \<noteq> Some taskId) (read_lines pre))
                     @ (if sscanf_id l = Some taskId then [] else l)
                     @ concat (filter (\<lambda>x. sscanf_id x \<noteq> Some taskId) (read_lines post)))"
proof -
  have r: "read_lines (pre @ l @ post) = read_lines pre @ l # read_lines post"
    using assms(4,5) by (rule read_lines_line)
  with assms(1-3) show ?thesis
    by (simp add: deleteTask_def delete_loop_eq)
qed

theorem deleteTask_omits_by_leading_id_witness:
  "tasks (fst (deleteTask 7 (env (Some ((''1,0,a'' @ [newline]) @ (''7 garbage'' @ [newline]) @ (''2,0,b'' @ [newline]))))))
     = Some (''1,0,a'' @ [newline] @ ''2,0,b'' @ [newline])"
proof -
  let ?pre = "''1,0,a'' @ [newline]" and ?l = "''7 garbage'' @ [newline]" and ?post = "''2,0,b'' @ [newline]"
  have h1: "tasks (env (Some (?pre @ ?l @ ?post))) = Some (?pre @ ?l @ ?post)"
    by (simp add: env_def)
  have h2: "home_set (env (Some (?pre @ ?l @ ?post)))" "writable (env (Some (?pre @ ?l @ ?post)))"
    by (simp_all add: env_def)
  have h4: "?pre = [] \<or> last ?pre = newline" by simp
  have h5: "fits_line ?l" by code_simp
  have e: "sscanf_id ?l = Some 7"
    "concat (filter (\<lambda>x. sscanf_id x \<noteq> Some 7) (read_lines ?pre)) = ?pre"
    "concat (filter (\<lambda>x. sscanf_id x \<noteq> Some 7) (read_lines ?post)) = ?post"
    by code_simp+
  show ?thesis
    using deleteTask_omits_by_leading_id [OF h1 h2 h4 h5, of 7] unfolding e by simp
qed

section \<open>The next id\<close>

text \<open>
  The line \<^verbatim>\<open>7 garbage\<close> is not a record, and it raises the next id to 8. In the file
  \<open>store_long\<close>, one line of 281 bytes that starts with no integer, the second piece
  that \<^verbatim>\<open>fgets\<close> reads is \<^verbatim>\<open>1,0,t\<close>, and the next id is 2.
\<close>

theorem getNextTaskId_counts_malformed_line_counterexample:
  "sscanf_task (''7 garbage'' @ [newline]) = Inr None
   \<and> getNextTaskId (Some (''7 garbage'' @ [newline])) = 8
   \<and> sscanf_id store_long = None
   \<and> getNextTaskId (Some store_long) = 2"
  by code_simp

text \<open>
  C3, as amended: let \<open>l\<close> be a line of the file that the line buffer holds whole (at
  most 275 bytes with its newline, no NUL byte). When \<^verbatim>\<open>"%d,"\<close> reads no integer at the
  beginning of \<open>l\<close>, \<^verbatim>\<open>getNextTaskId\<close> skips it: the result is that for the file
  without \<open>l\<close>, and it is 1 when the rest of the file has no parsed id (no piece that
  \<^verbatim>\<open>fgets\<close> reads of it starts with an integer). When \<^verbatim>\<open>"%d,"\<close> reads an integer \<open>i\<close>
  at the beginning of \<open>l\<close>, the line counts, a record or not: the result is greater
  than \<open>i\<close> (parsed ids below \<^verbatim>\<open>INT_MAX\<close>).
\<close>

theorem getNextTaskId_skips_lines_without_id:
  assumes "pre = [] \<or> last pre = newline" "fits_line l"
  shows "(sscanf_id l = None \<longrightarrow>
            getNextTaskId (Some (pre @ l @ post)) = getNextTaskId (Some (pre @ post))
            \<and> (parsed_ids (pre @ post) = [] \<longrightarrow> getNextTaskId (Some (pre @ l @ post)) = 1))
         \<and> (\<forall>i. sscanf_id l = Some i \<and> (\<forall>j\<in>set (parsed_ids (pre @ l @ post)). sint j < 2 ^ 31 - 1)
                \<longrightarrow> i <s getNextTaskId (Some (pre @ l @ post)))"
proof -
  have r: "read_lines (pre @ l @ post) = read_lines pre @ l # read_lines post"
    using assms(1,2) by (rule read_lines_line)
  have r': "read_lines (pre @ post) = read_lines pre @ read_lines post"
    using assms(1) by (rule read_lines_aligned)
  have eq: "getNextTaskId (Some (pre @ l @ post)) = getNextTaskId (Some (pre @ post))" if "sscanf_id l = None"
    by (simp add: getNextTaskId_def r r' next_id_loop_append that)
  have "next_id_loop m ls = m" if "List.map_filter sscanf_id ls = []" for m ls
    using that by (induction ls) (auto split: option.splits)
  then have one: "getNextTaskId (Some (pre @ post)) = 1" if "parsed_ids (pre @ post) = []"
    using that by (simp add: getNextTaskId_def parsed_ids_def)
  have counts: "i <s getNextTaskId (Some (pre @ l @ post))"
    if i: "sscanf_id l = Some i" and b: "\<forall>j\<in>set (parsed_ids (pre @ l @ post)). sint j < 2 ^ 31 - 1" for i
  proof -
    let ?M = "Max (set (0 # map sint (parsed_ids (pre @ l @ post))))"
    have "i \<in> set (parsed_ids (pre @ l @ post))"
      using i by (auto simp: set_parsed_ids r)
    then have "sint i \<le> ?M" by (intro Max_ge) simp_all
    moreover have "sint (getNextTaskId (Some (pre @ l @ post))) = ?M + 1"
      using b by (rule sint_getNextTaskId)
    ultimately show ?thesis by (simp add: word_sless_alt)
  qed
  from eq one counts show ?thesis by simp
qed

theorem getNextTaskId_skips_lines_without_id_witness:
  "getNextTaskId (Some ((''1,0,a'' @ [newline]) @ (''garbage'' @ [newline]) @ (''2,0,b'' @ [newline]))) = 3
   \<and> getNextTaskId (Some ([] @ (''garbage'' @ [newline]) @ (''more, garbage'' @ [newline]))) = 1
   \<and> sscanf_id (''7 garbage'' @ [newline]) = Some 7
   \<and> 7 <s getNextTaskId (Some ((''1,0,a'' @ [newline]) @ (''7 garbage'' @ [newline]) @ (''2,0,b'' @ [newline])))"
proof -
  let ?pre = "''1,0,a'' @ [newline]" and ?l = "''garbage'' @ [newline]" and ?post = "''2,0,b'' @ [newline]"
  let ?g = "''7 garbage'' @ [newline]"
  have h1: "?pre = [] \<or> last ?pre = newline" "([]::string) = [] \<or> last [] = newline" by simp_all
  have h2: "fits_line ?l" "fits_line ?g" by code_simp+
  have h3: "sscanf_id ?l = None" by code_simp
  have e: "getNextTaskId (Some (?pre @ ?post)) = 3" by code_simp
  have p: "parsed_ids ([] @ (''more, garbage'' @ [newline])) = []" by code_simp
  have i7: "sscanf_id ?g = Some 7" by code_simp
  have ids: "parsed_ids (?pre @ ?g @ ?post) = [1, 7, 2]" by code_simp
  have b: "\<forall>j\<in>set (parsed_ids (?pre @ ?g @ ?post)). sint j < 2 ^ 31 - 1"
    unfolding ids by simp
  note t1 = getNextTaskId_skips_lines_without_id [OF h1(1) h2(1), of ?post, THEN conjunct1, THEN mp, OF h3, THEN conjunct1]
  note t2 = getNextTaskId_skips_lines_without_id [OF h1(2) h2(1), of "''more, garbage'' @ [newline]",
      THEN conjunct1, THEN mp, OF h3, THEN conjunct2, THEN mp, OF p]
  note t3 = getNextTaskId_skips_lines_without_id [OF h1(1) h2(2), of ?post, THEN conjunct2, THEN spec, of 7,
      THEN mp, OF conjI [OF i7 b]]
  from t1 e have a: "getNextTaskId (Some (?pre @ ?l @ ?post)) = 3" by simp
  from a t2 i7 t3 show ?thesis by (intro conjI)
qed

text \<open>
  A file whose only id is -5: the result is 1, not -4, although an id was read.
\<close>

theorem getNextTaskId_negative_ids_counterexample:
  "parsed_ids (''-5,0,x'' @ [newline]) = [- 5]
   \<and> getNextTaskId (Some (''-5,0,x'' @ [newline])) = 1"
  by code_simp

text \<open>
  C4, as amended: the result is one plus the largest of 0 and the ids read (the ids
  being below \<^verbatim>\<open>INT_MAX\<close>); it is 1 exactly when no id read is positive, and 1 when
  the file cannot be opened.
\<close>

theorem getNextTaskId_max_plus_one:
  assumes "\<forall>i\<in>set (parsed_ids content). sint i < 2 ^ 31 - 1"
  shows "sint (getNextTaskId (Some content)) = Max (set (0 # map sint (parsed_ids content))) + 1
         \<and> (getNextTaskId (Some content) = 1 \<longleftrightarrow> (\<forall>i\<in>set (parsed_ids content). sint i \<le> 0))
         \<and> getNextTaskId None = 1"
proof -
  let ?M = "Max (set (0 # map sint (parsed_ids content)))"
  have n: "sint (getNextTaskId (Some content)) = ?M + 1"
    using assms by (rule sint_getNextTaskId)
  have "getNextTaskId (Some content) = 1 \<longleftrightarrow> sint (getNextTaskId (Some content)) = sint (1 :: cint)"
    by (rule word_eq_iff_signed)
  also have "\<dots> \<longleftrightarrow> ?M = 0"
    by (simp add: n)
  also have "\<dots> \<longleftrightarrow> (\<forall>i\<in>set (parsed_ids content). sint i \<le> 0)"
  proof
    assume z: "?M = 0"
    show "\<forall>i\<in>set (parsed_ids content). sint i \<le> 0"
    proof
      fix i assume "i \<in> set (parsed_ids content)"
      then have "sint i \<le> ?M" by (intro Max_ge) simp_all
      with z show "sint i \<le> 0" by simp
    qed
  next
    assume a: "\<forall>i\<in>set (parsed_ids content). sint i \<le> 0"
    have "?M \<in> set (0 # map sint (parsed_ids content))" by (rule Max_in) simp_all
    with a have "?M \<le> 0" by auto
    moreover have "0 \<le> ?M" by (rule Max_ge) simp_all
    ultimately show "?M = 0" by (rule antisym)
  qed
  finally have one: "getNextTaskId (Some content) = 1 \<longleftrightarrow> (\<forall>i\<in>set (parsed_ids content). sint i \<le> 0)" .
  have "getNextTaskId None = 1"
    by (simp add: getNextTaskId_def)
  with n one show ?thesis
    by (intro conjI)
qed

theorem getNextTaskId_max_plus_one_witness:
  "parsed_ids store_a_b = [1, 3]
   \<and> sint (getNextTaskId (Some store_a_b)) = 4
   \<and> getNextTaskId (Some store_a_b) \<noteq> 1"
proof -
  have ids: "parsed_ids store_a_b = [1, 3]" by code_simp
  have h: "\<forall>i\<in>set (parsed_ids store_a_b). sint i < 2 ^ 31 - 1" by (simp add: ids)
  from getNextTaskId_max_plus_one [OF h] show ?thesis
    by (simp add: ids)
qed

section \<open>Adding and listing\<close>

text \<open>
  C6: on an absent or empty store that can be opened for appending,
  \<^verbatim>\<open>addTask "buy milk"\<close> leaves the one line \<^verbatim>\<open>1,0,buy milk\<close>. The loop of
  \<^verbatim>\<open>listTasks\<close> then reads exactly one record, id 1, status 0 and description
  \<^verbatim>\<open>buy milk\<close>, and \<^verbatim>\<open>listTasks\<close> prints the header, the one line for it with
  \<^verbatim>\<open>[PENDING]\<close> and \<^verbatim>\<open>buy milk\<close>, and the footer, and nothing else.
\<close>

theorem add_then_list_round_trip:
  assumes "tasks w = None \<or> tasks w = Some []" "writable w"
  shows "tasks (fst (addTask ''buy milk'' w)) = Some (''1,0,buy milk'' @ [newline])
         \<and> list_loop (read_lines (''1,0,buy milk'' @ [newline])) = Inr [(1, 0, ''buy milk'')]
         \<and> listTasks (fst (addTask ''buy milk'' w))
             = Inr [Stdout ([newline, CHR 0x1B] @ ''[1m'' @ [CHR 0x1B] @ ''[36m''
                            @ ''------------------------------------------------------''
                            @ [CHR 0x1B] @ ''[0m'' @ [newline]),
                    Stdout ([CHR 0x1B] @ ''[36mID: 1   '' @ [CHR 0x1B] @ ''[0m Status: '' @ [CHR 0x1B]
                            @ ''[33m[PENDING] '' @ [CHR 0x1B] @ ''[0m Description: buy milk'' @ [CHR 0x1B]
                            @ ''[0m'' @ [newline]),
                    Stdout ([CHR 0x1B] @ ''[36m''
                            @ ''------------------------------------------------------''
                            @ [CHR 0x1B] @ ''[0m'' @ [newline, newline])]"
proof -
  have n: "getNextTaskId (Some []) = 1" by code_simp
  have p: "printf_d 1 = ''1''" "printf_d 0 = ''0''" by code_simp+
  have l: "list_loop (read_lines (''1,0,buy milk'' @ [newline])) = Inr [(1, 0, ''buy milk'')]"
    by code_simp
  from assms have t: "tasks (fst (addTask ''buy milk'' w)) = Some (''1,0,buy milk'' @ [newline])"
    by (auto simp: addTask_def Let_def n p)
  have o: "list_output [(1, 0, ''buy milk'')]
             = [Stdout ([newline, CHR 0x1B] @ ''[1m'' @ [CHR 0x1B] @ ''[36m''
                            @ ''------------------------------------------------------''
                            @ [CHR 0x1B] @ ''[0m'' @ [newline]),
                    Stdout ([CHR 0x1B] @ ''[36mID: 1   '' @ [CHR 0x1B] @ ''[0m Status: '' @ [CHR 0x1B]
                            @ ''[33m[PENDING] '' @ [CHR 0x1B] @ ''[0m Description: buy milk'' @ [CHR 0x1B]
                            @ ''[0m'' @ [newline]),
                    Stdout ([CHR 0x1B] @ ''[36m''
                            @ ''------------------------------------------------------''
                            @ [CHR 0x1B] @ ''[0m'' @ [newline, newline])]"
    by (simp add: list_output_def print_task_def status_text_def status_color_def pad_right_def p
        ANSI_COLOR_CYAN_def ANSI_COLOR_RESET_def ANSI_COLOR_YELLOW_def ANSI_BOLD_def eval_nat_numeral)
  have "listTasks (fst (addTask ''buy milk'' w)) = Inr (list_output [(1, 0, ''buy milk'')])"
    unfolding listTasks_def t using l by simp
  with t l show ?thesis unfolding o by (intro conjI)
qed

theorem add_then_list_round_trip_witness:
  "tasks (fst (addTask ''buy milk'' (env None))) = Some (''1,0,buy milk'' @ [newline])
   \<and> listTasks (fst (addTask ''buy milk'' (env None)))
       = Inr [Stdout ([newline, CHR 0x1B] @ ''[1m'' @ [CHR 0x1B] @ ''[36m''
                      @ ''------------------------------------------------------''
                      @ [CHR 0x1B] @ ''[0m'' @ [newline]),
              Stdout ([CHR 0x1B] @ ''[36mID: 1   '' @ [CHR 0x1B] @ ''[0m Status: '' @ [CHR 0x1B]
                      @ ''[33m[PENDING] '' @ [CHR 0x1B] @ ''[0m Description: buy milk'' @ [CHR 0x1B]
                      @ ''[0m'' @ [newline]),
              Stdout ([CHR 0x1B] @ ''[36m''
                      @ ''------------------------------------------------------''
                      @ [CHR 0x1B] @ ''[0m'' @ [newline, newline])]
   \<and> tasks (fst (addTask ''buy milk'' (env (Some [])))) = Some (''1,0,buy milk'' @ [newline])"
proof -
  have h: "tasks (env None) = None \<or> tasks (env None) = Some []" "writable (env None)"
    "tasks (env (Some [])) = None \<or> tasks (env (Some [])) = Some []" "writable (env (Some []))"
    by (simp_all add: env_def)
  note a = add_then_list_round_trip [OF h(1,2)] and b = add_then_list_round_trip [OF h(3,4)]
  from a [THEN conjunct1] a [THEN conjunct2, THEN conjunct2] b [THEN conjunct1]
  show ?thesis by (intro conjI)
qed

section \<open>Changing a status\<close>

text \<open>
  Two files in which \<^verbatim>\<open>modifyTaskStatus 1\<close> does not write a line back as it was. In
  the first, the line \<^verbatim>\<open>a\<close>, NUL, \<^verbatim>\<open>b\<close> is cut at the NUL byte and loses its newline.
  In the second, one malformed line of 281 bytes is read in two pieces, and the second
  piece, \<^verbatim>\<open>1,0,t\<close>, is taken for the task.
\<close>

theorem modifyTaskStatus_alters_other_line_counterexample:
  "modifyTaskStatus 1 True (env (Some ((''a'' @ [NUL] @ ''b'' @ [newline]) @ (''1,0,t'' @ [newline]))))
     = Inr (env (Some (''a'' @ (''1,1,t'' @ [newline]))), [Stdout (''Task ID 1 marked as DONE.'' @ [newline])])
   \<and> modifyTaskStatus 1 True (env (Some (replicate 275 (CHR ''x'') @ ''1,0,t'' @ [newline])))
     = Inr (env (Some (replicate 275 (CHR ''x'') @ ''1,1,t'' @ [newline])),
            [Stdout (''Task ID 1 marked as DONE.'' @ [newline])])"
  by code_simp

text \<open>
  C5, as amended: let \<open>l\<close> be a line of the file that the line buffer holds whole (at
  most 275 bytes with its newline, no NUL byte) and that is not a record with the id
  \<open>taskId\<close>. When \<^verbatim>\<open>modifyTaskStatus\<close> returns (no description overflows its buffer), it
  has written \<open>l\<close> back unchanged, between what it wrote for the lines before and for
  the lines after. When \<open>l\<close> is malformed, \<^verbatim>\<open>listTasks\<close> prints what it prints for the file
  without \<open>l\<close>.
\<close>

theorem modifyTaskStatus_leaves_other_lines:
  assumes "tasks w = Some (pre @ l @ post)" "home_set w" "writable w"
    and "pre = [] \<or> last pre = newline" "fits_line l"
    and "\<not> targets taskId l"
    and "modifyTaskStatus taskId complete w = Inr (w', os)"
  shows "tasks w' = Some (concat (map (rewrite_line taskId complete) (read_lines pre)) @ l
                         @ concat (map (rewrite_line taskId complete) (read_lines post)))
         \<and> (sscanf_task l = Inr None \<longrightarrow> listTasks w = listTasks (w\<lparr>tasks := Some (pre @ post)\<rparr>))"
proof -
  have r: "read_lines (pre @ l @ post) = read_lines pre @ l # read_lines post"
    using assms(4,5) by (rule read_lines_line)
  have r': "read_lines (pre @ post) = read_lines pre @ read_lines post"
    using assms(4) by (rule read_lines_aligned)
  from assms(7) have "tasks w' = Some (concat (map (rewrite_line taskId complete) (read_lines (pre @ l @ post))))"
    unfolding modifyTaskStatus_eq [OF assms(1-3)] by (auto split: if_splits)
  then have a: "tasks w' = Some (concat (map (rewrite_line taskId complete) (read_lines pre)) @ l
                         @ concat (map (rewrite_line taskId complete) (read_lines post)))"
    by (simp add: r not_targets_rewrite [OF assms(6)])
  have b: "listTasks w = listTasks (w\<lparr>tasks := Some (pre @ post)\<rparr>)" if "sscanf_task l = Inr None"
    using that
    by (simp add: listTasks_eq [OF assms(1)] listTasks_eq [of "w\<lparr>tasks := Some (pre @ post)\<rparr>" "pre @ post"]
        r r' map_filter_append)
  from a b show ?thesis by simp
qed

theorem modifyTaskStatus_leaves_other_lines_witness:
  "modifyTaskStatus 1 True (env (Some ((''1,0,a'' @ [newline]) @ (''garbage'' @ [newline]) @ (''2,0,b'' @ [newline]))))
     = Inr (env (Some ((''1,1,a'' @ [newline]) @ (''garbage'' @ [newline]) @ (''2,0,b'' @ [newline]))),
            [Stdout (''Task ID 1 marked as DONE.'' @ [newline])])
   \<and> listTasks (env (Some ((''1,0,a'' @ [newline]) @ (''garbage'' @ [newline]) @ (''2,0,b'' @ [newline]))))
     = Inr (list_output [(1, 0, ''a''), (2, 0, ''b'')])"
proof -
  let ?pre = "''1,0,a'' @ [newline]" and ?l = "''garbage'' @ [newline]" and ?post = "''2,0,b'' @ [newline]"
  let ?w = "env (Some (?pre @ ?l @ ?post))"
  let ?w' = "env (Some ((''1,1,a'' @ [newline]) @ ?l @ ?post))"
  let ?os = "[Stdout (''Task ID 1 marked as DONE.'' @ [newline])]"
  have h1: "tasks ?w = Some (?pre @ ?l @ ?post)" "home_set ?w" "writable ?w"
    by (simp_all add: env_def)
  have h4: "?pre = [] \<or> last ?pre = newline" by simp
  have h5: "fits_line ?l" by code_simp
  have h6: "\<not> targets 1 ?l" by code_simp
  have h7: "modifyTaskStatus 1 True ?w = Inr (?w', ?os)" by code_simp
  have m: "sscanf_task ?l = Inr None" by code_simp
  have e: "listTasks (?w\<lparr>tasks := Some (?pre @ ?post)\<rparr>) = Inr (list_output [(1, 0, ''a''), (2, 0, ''b'')])"
    unfolding listTasks_def env_def by code_simp
  from modifyTaskStatus_leaves_other_lines [OF h1 h4 h5 h6 h7] m e h7 show ?thesis
    by simp
qed

text \<open>
  A file with a NUL byte on which a second \<^verbatim>\<open>modifyTaskStatus 15\<close> changes what the
  first has written: the first call joins \<^verbatim>\<open>1\<close> and \<^verbatim>\<open>5,0,x\<close> into the line
  \<^verbatim>\<open>15,0,x\<close> and finds nothing, the second finds that line and marks it.
\<close>

theorem modifyTaskStatus_not_idempotent_counterexample:
  "modifyTaskStatus 15 True (env (Some ((''1'' @ [NUL, newline]) @ (''5,0,x'' @ [newline]))))
     = Inr (env (Some (''15,0,x'' @ [newline])), [Stdout (''Task ID 15 not found.'' @ [newline])])
   \<and> modifyTaskStatus 15 True (env (Some (''15,0,x'' @ [newline])))
     = Inr (env (Some (''15,1,x'' @ [newline])), [Stdout (''Task ID 15 marked as DONE.'' @ [newline])])"
  by code_simp

text \<open>
  C7, as amended: on a store file without NUL bytes, when \<^verbatim>\<open>modifyTaskStatus\<close> returns
  (no description overflows its buffer), a second call with the same id and the same
  status returns too, leaves the file as the first call left it and prints the same
  message; for either status.
\<close>

theorem modifyTaskStatus_idempotent:
  assumes "tasks w = Some content" "NUL \<notin> set content"
    and "modifyTaskStatus taskId complete w = Inr (w1, os)"
  shows "modifyTaskStatus taskId complete w1 = Inr (w1, os)"
proof (cases "home_set w \<and> writable w")
  case False
  with assms(1,3) have "w1 = w"
    by (auto simp: modifyTaskStatus_def split: if_splits)
  with assms(3) show ?thesis by simp
next
  case True
  then have hw: "home_set w" "writable w" by simp_all
  let ?L = "read_lines content"
  let ?L' = "map (rewrite_line taskId complete) ?L"
  from assms(3) have no: "\<forall>l\<in>set ?L. sscanf_task l \<noteq> Inl BufferOverflow"
    and w1: "w1 = w\<lparr>tasks := Some (concat ?L')\<rparr>"
    and os: "os = [Stdout (if \<exists>l\<in>set ?L. targets taskId l
                         then ''Task ID '' @ printf_d taskId @ '' marked as ''
                              @ (if complete then ''DONE'' else ''PENDING'') @ ''.'' @ [newline]
                         else ''Task ID '' @ printf_d taskId @ '' not found.'' @ [newline])]"
    unfolding modifyTaskStatus_eq [OF assms(1) hw] by (auto split: if_splits)
  have ok: "chunks_ok ?L'"
    using chunks_ok_read_lines [OF assms(2)] no by (rule chunks_ok_rewrite)
  have rl: "read_lines (concat ?L') = ?L'"
    using ok by (rule read_lines_concat)
  have t1: "tasks w1 = Some (concat ?L')" "home_set w1" "writable w1"
    using hw by (simp_all add: w1)
  have no': "\<not> (\<exists>l\<in>set ?L'. sscanf_task l = Inl BufferOverflow)"
    using no by (auto simp: rewrite_line_fixed(1))
  have fp: "map (rewrite_line taskId complete) ?L' = ?L'"
    using no by (simp add: rewrite_line_fixed(2))
  have tg: "(\<exists>l\<in>set ?L'. targets taskId l) \<longleftrightarrow> (\<exists>l\<in>set ?L. targets taskId l)"
    using no by (auto simp: rewrite_line_fixed(3))
  have same: "w1\<lparr>tasks := Some (concat ?L')\<rparr> = w1"
    by (simp add: w1)
  show ?thesis
    unfolding modifyTaskStatus_eq [OF t1] rl fp tg same using no' os by simp
qed

theorem modifyTaskStatus_idempotent_witness:
  "modifyTaskStatus 3 True (env (Some store_a_b))
     = Inr (env (Some (''1,0,a'' @ [newline] @ ''3,1,b'' @ [newline])),
            [Stdout (''Task ID 3 marked as DONE.'' @ [newline])])
   \<and> modifyTaskStatus 3 True (env (Some (''1,0,a'' @ [newline] @ ''3,1,b'' @ [newline])))
     = Inr (env (Some (''1,0,a'' @ [newline] @ ''3,1,b'' @ [newline])),
            [Stdout (''Task ID 3 marked as DONE.'' @ [newline])])"
proof -
  have h1: "tasks (env (Some store_a_b)) = Some store_a_b"
    by (simp add: env_def)
  have h2: "NUL \<notin> set store_a_b"
    by (simp add: store_a_b_def)
  have h3: "modifyTaskStatus 3 True (env (Some store_a_b))
     = Inr (env (Some (''1,0,a'' @ [newline] @ ''3,1,b'' @ [newline])),
            [Stdout (''Task ID 3 marked as DONE.'' @ [newline])])"
    by code_simp
  from modifyTaskStatus_idempotent [OF h1 h2 h3] h3 show ?thesis
    by (intro conjI)
qed

section \<open>Lines with an empty description, lines with any status\<close>

text \<open>
  C9: a line \<^verbatim>\<open>id,status,\<close> with nothing between the second comma and the newline
  (two fields \<open>a\<close> and \<open>b\<close> without a comma, whatever they hold) is malformed for
  \<^verbatim>\<open>sscanf\<close>, which converts at most two fields of three. \<^verbatim>\<open>listTasks\<close> prints what it
  prints for the file without the line; \<^verbatim>\<open>modifyTaskStatus\<close>, with the line's id or any
  other, writes the line back unchanged and reports what it reports for the file without
  the line, so the line is neither found nor updated.
\<close>

theorem empty_description_is_malformed:
  assumes "tasks w = Some (pre @ l @ post)" "home_set w" "writable w"
    and "pre = [] \<or> last pre = newline"
    and "l = a @ '','' @ b @ '','' @ [newline]" "CHR '','' \<notin> set a" "CHR '','' \<notin> set b"
    and "fits_line l"
    and "modifyTaskStatus taskId complete w = Inr (w', os)"
  shows "sscanf_task l = Inr None
         \<and> listTasks w = listTasks (w\<lparr>tasks := Some (pre @ post)\<rparr>)
         \<and> tasks w' = Some (concat (map (rewrite_line taskId complete) (read_lines pre)) @ l
                             @ concat (map (rewrite_line taskId complete) (read_lines post)))
         \<and> modifyTaskStatus taskId complete (w\<lparr>tasks := Some (pre @ post)\<rparr>)
             = Inr (w\<lparr>tasks := Some (concat (map (rewrite_line taskId complete) (read_lines pre))
                                          @ concat (map (rewrite_line taskId complete) (read_lines post)))\<rparr>, os)"
proof -
  have m: "sscanf_task l = Inr None"
    unfolding assms(5) using sscanf_task_no_description [OF assms(6,7), of "[]"] by simp
  have r: "read_lines (pre @ l @ post) = read_lines pre @ l # read_lines post"
    using assms(4,8) by (rule read_lines_line)
  have r': "read_lines (pre @ post) = read_lines pre @ read_lines post"
    using assms(4) by (rule read_lines_aligned)
  have nt: "\<not> targets taskId l" by (simp add: targets_def m)
  have w2: "tasks (w\<lparr>tasks := Some (pre @ post)\<rparr>) = Some (pre @ post)"
    "home_set (w\<lparr>tasks := Some (pre @ post)\<rparr>)" "writable (w\<lparr>tasks := Some (pre @ post)\<rparr>)"
    using assms(2,3) by simp_all
  have a: "listTasks w = listTasks (w\<lparr>tasks := Some (pre @ post)\<rparr>)"
    by (simp add: listTasks_eq [OF assms(1)] listTasks_eq [OF w2(1)]
        r r' map_filter_append m)
  from assms(9) have
    b: "tasks w' = Some (concat (map (rewrite_line taskId complete) (read_lines pre)) @ l
                             @ concat (map (rewrite_line taskId complete) (read_lines post)))"
    unfolding modifyTaskStatus_eq [OF assms(1-3)]
    by (auto simp: r not_targets_rewrite [OF nt] split: if_splits)
  from assms(9) have
    c: "modifyTaskStatus taskId complete (w\<lparr>tasks := Some (pre @ post)\<rparr>)
             = Inr (w\<lparr>tasks := Some (concat (map (rewrite_line taskId complete) (read_lines pre))
                                          @ concat (map (rewrite_line taskId complete) (read_lines post)))\<rparr>, os)"
    unfolding modifyTaskStatus_eq [OF assms(1-3)] modifyTaskStatus_eq [OF w2]
    by (auto simp: r r' m nt split: if_splits)
  from m a b c show ?thesis by simp
qed

theorem empty_description_is_malformed_witness:
  "sscanf_task (''7,0,'' @ [newline]) = Inr None
   \<and> listTasks (env (Some ([] @ (''7,0,'' @ [newline]) @ []))) = Inr (list_output [])
   \<and> modifyTaskStatus 7 True (env (Some ([] @ (''7,0,'' @ [newline]) @ [])))
       = Inr (env (Some ([] @ (''7,0,'' @ [newline]) @ [])), [Stdout (''Task ID 7 not found.'' @ [newline])])"
proof -
  let ?l = "''7,0,'' @ [newline]"
  let ?w = "env (Some ([] @ ?l @ []))"
  let ?os = "[Stdout (''Task ID 7 not found.'' @ [newline])]"
  have h1: "tasks ?w = Some ([] @ ?l @ [])" "home_set ?w" "writable ?w"
    by (simp_all add: env_def)
  have h4: "([]::string) = [] \<or> last [] = newline" by simp
  have h5: "?l = ''7'' @ '','' @ ''0'' @ '','' @ [newline]" by simp
  have h6: "CHR '','' \<notin> set ''7''" "CHR '','' \<notin> set ''0''" by simp_all
  have h8: "fits_line ?l" by code_simp
  have h9: "modifyTaskStatus 7 True ?w = Inr (?w, ?os)" by code_simp
  have e: "listTasks (?w\<lparr>tasks := Some ([] @ [])\<rparr>) = Inr (list_output [])"
    unfolding listTasks_def env_def by code_simp
  from empty_description_is_malformed [OF h1 h4 h5 h6 h8 h9] e h9 show ?thesis
    by simp
qed

text \<open>
  A status that is no \<^verbatim>\<open>int\<close>: 4294967297 is read as 1, and the line is printed as
  \<^verbatim>\<open>[DONE]\<close> although its status is not 1.
\<close>

theorem status_out_of_int_range_counterexample:
  "sscanf_task store_big_status = Inr (Some (1, 1, ''x''))
   \<and> listTasks (env (Some store_big_status))
       = Inr [Stdout ([newline, CHR 0x1B] @ ''[1m'' @ [CHR 0x1B] @ ''[36m''
                      @ ''------------------------------------------------------''
                      @ [CHR 0x1B] @ ''[0m'' @ [newline]),
              Stdout ([CHR 0x1B] @ ''[36mID: 1   '' @ [CHR 0x1B] @ ''[0m Status: '' @ [CHR 0x1B]
                      @ ''[32m[DONE]    '' @ [CHR 0x1B] @ ''[0m Description: x'' @ [CHR 0x1B]
                      @ ''[0m'' @ [newline]),
              Stdout ([CHR 0x1B] @ ''[36m''
                      @ ''------------------------------------------------------''
                      @ [CHR 0x1B] @ ''[0m'' @ [newline, newline])]"
proof -
  have isd: "isdigit (CHR ''0'')" "isdigit (CHR ''1'')" "isdigit (CHR ''2'')" "isdigit (CHR ''3'')"
    "isdigit (CHR ''4'')" "isdigit (CHR ''5'')" "isdigit (CHR ''6'')" "isdigit (CHR ''7'')"
    "isdigit (CHR ''8'')" "isdigit (CHR ''9'')"
    by (simp_all add: isdigit_def)
  have big: "scan_int (''4294967297,x'' @ [newline]) = Some (1, '',x'' @ [newline])"
    by (simp add: scan_int_def Let_def isspace_def isd digit_of_def strtol_clamp_def long_to_int_def
        word_of_int_eq_iff take_bit_eq_mod)
  have one: "scan_int store_big_status = Some (1, '',4294967297,x'' @ [newline])"
    by (simp add: store_big_status_def scan_int_def Let_def isspace_def isd digit_of_def
        strtol_clamp_def long_to_int_def)
  have st: "sscanf_task store_big_status = Inr (Some (1, 1, ''x''))"
    using big by (simp add: sscanf_task_def one MAX_DESCRIPTION_LEN_def)
  have "read_lines (store_big_status @ []) = c_str store_big_status # read_lines []"
    by (rule read_lines_chunk) (simp_all add: store_big_status_def LINE_SIZE_def MAX_DESCRIPTION_LEN_def)
  then have rl: "read_lines store_big_status = [store_big_status]"
    by (simp add: read_lines_Nil c_str_id store_big_status_def)
  have p: "printf_d 1 = ''1''" by code_simp
  have "listTasks (env (Some store_big_status)) = Inr (list_output [(1, 1, ''x'')])"
    by (simp add: listTasks_def env_sel rl st)
  then have "listTasks (env (Some store_big_status))
       = Inr [Stdout ([newline, CHR 0x1B] @ ''[1m'' @ [CHR 0x1B] @ ''[36m''
                      @ ''------------------------------------------------------''
                      @ [CHR 0x1B] @ ''[0m'' @ [newline]),
              Stdout ([CHR 0x1B] @ ''[36mID: 1   '' @ [CHR 0x1B] @ ''[0m Status: '' @ [CHR 0x1B]
                      @ ''[32m[DONE]    '' @ [CHR 0x1B] @ ''[0m Description: x'' @ [CHR 0x1B]
                      @ ''[0m'' @ [newline]),
              Stdout ([CHR 0x1B] @ ''[36m''
                      @ ''------------------------------------------------------''
                      @ [CHR 0x1B] @ ''[0m'' @ [newline, newline])]"
    by (simp add: list_output_def print_task_def status_text_def status_color_def pad_right_def p
        ANSI_COLOR_CYAN_def ANSI_COLOR_RESET_def ANSI_COLOR_GREEN_def ANSI_BOLD_def eval_nat_numeral)
  with st show ?thesis by (intro conjI)
qed

text \<open>
  C10, as amended: let \<open>l\<close> be a line \<^verbatim>\<open>id,s,description\<close> of the file that the line
  buffer holds whole, where \<open>id\<close> and \<open>s\<close> are any \<^verbatim>\<open>int\<close> values as \<^verbatim>\<open>printf("%d")\<close>
  writes them and the description has 1 to 255 bytes, and let no description before or
  after \<open>l\<close> overflow its buffer. Then \<open>l\<close> is a record for \<^verbatim>\<open>sscanf\<close>; \<^verbatim>\<open>listTasks\<close>
  prints it in its place, between the lines for the records before and after it, with
  \<^verbatim>\<open>[DONE]\<close> when \<open>s\<close> is 1 and with \<^verbatim>\<open>[PENDING]\<close> for every other \<open>s\<close>;
  \<^verbatim>\<open>modifyTaskStatus\<close> with its id (\<^verbatim>\<open>HOME\<close> set, the temporary file can be written)
  finds it and writes it back with the new status.
\<close>

theorem any_status_is_well_formed:
  assumes "tasks w = Some (pre @ l @ post)" "home_set w" "writable w"
    and "pre = [] \<or> last pre = newline"
    and "l = printf_d tid @ '','' @ printf_d status @ '','' @ description @ [newline]"
    and "fits_line l" "description \<noteq> []" "length description < MAX_DESCRIPTION_LEN"
    and "list_loop (read_lines pre) = Inr rs1" "list_loop (read_lines post) = Inr rs2"
  shows "sscanf_task l = Inr (Some (tid, status, description))
         \<and> listTasks w
             = Inr ([Stdout ([newline, CHR 0x1B] @ ''[1m'' @ [CHR 0x1B] @ ''[36m''
                             @ ''------------------------------------------------------''
                             @ [CHR 0x1B] @ ''[0m'' @ [newline])]
                    @ map print_task rs1
                    @ [Stdout ([CHR 0x1B] @ ''[36mID: '' @ printf_d tid
                               @ replicate (4 - length (printf_d tid)) (CHR '' '')
                               @ [CHR 0x1B] @ ''[0m Status: ''
                               @ (if status = 1 then [CHR 0x1B] @ ''[32m[DONE]    ''
                                  else [CHR 0x1B] @ ''[33m[PENDING] '')
                               @ [CHR 0x1B] @ ''[0m Description: '' @ description @ [CHR 0x1B] @ ''[0m''
                               @ [newline])]
                    @ map print_task rs2
                    @ [Stdout ([CHR 0x1B] @ ''[36m''
                               @ ''------------------------------------------------------''
                               @ [CHR 0x1B] @ ''[0m'' @ [newline, newline])])
         \<and> modifyTaskStatus tid complete w
             = Inr (w\<lparr>tasks := Some (concat (map (rewrite_line tid complete) (read_lines pre))
                                          @ (printf_d tid @ '','' @ printf_d (if complete then 1 else 0) @ '',''
                                             @ description @ [newline])
                                          @ concat (map (rewrite_line tid complete) (read_lines post)))\<rparr>,
                    [Stdout (''Task ID '' @ printf_d tid @ '' marked as ''
                             @ (if complete then ''DONE'' else ''PENDING'') @ ''.'' @ [newline])])"
proof -
  from assms(6) have "newline \<notin> set (butlast l)" by (simp add: fits_line_def)
  then have nd: "newline \<notin> set description"
    by (simp add: assms(5) butlast_append)
  have m: "sscanf_task l = Inr (Some (tid, status, description))"
    unfolding assms(5) using sscanf_task_printed [OF assms(7) nd assms(8), of "[newline]" tid status] by simp
  have r: "read_lines (pre @ l @ post) = read_lines pre @ l # read_lines post"
    using assms(4,6) by (rule read_lines_line)
  have no1: "\<not> (\<exists>x\<in>set (read_lines pre). sscanf_task x = Inl BufferOverflow)"
    "List.map_filter (\<lambda>l. case sscanf_task l of Inr r \<Rightarrow> r | Inl e \<Rightarrow> None) (read_lines pre) = rs1"
    using assms(9) unfolding list_loop_eq by (auto split: if_splits)
  have no2: "\<not> (\<exists>x\<in>set (read_lines post). sscanf_task x = Inl BufferOverflow)"
    "List.map_filter (\<lambda>l. case sscanf_task l of Inr r \<Rightarrow> r | Inl e \<Rightarrow> None) (read_lines post) = rs2"
    using assms(10) unfolding list_loop_eq by (auto split: if_splits)
  have a: "listTasks w = Inr (list_output (rs1 @ [(tid, status, description)] @ rs2))"
    using no1 no2 by (auto simp: listTasks_eq [OF assms(1)] r map_filter_append m)
  have p: "print_task (tid, status, description)
             = Stdout ([CHR 0x1B] @ ''[36mID: '' @ printf_d tid
                               @ replicate (4 - length (printf_d tid)) (CHR '' '')
                               @ [CHR 0x1B] @ ''[0m Status: ''
                               @ (if status = 1 then [CHR 0x1B] @ ''[32m[DONE]    ''
                                  else [CHR 0x1B] @ ''[33m[PENDING] '')
                               @ [CHR 0x1B] @ ''[0m Description: '' @ description @ [CHR 0x1B] @ ''[0m''
                               @ [newline])"
    by (simp add: print_task_def status_text_def status_color_def pad_right_def eval_nat_numeral
        ANSI_COLOR_CYAN_def ANSI_COLOR_RESET_def ANSI_COLOR_GREEN_def ANSI_COLOR_YELLOW_def)
  have o: "list_output (rs1 @ [(tid, status, description)] @ rs2)
            = [Stdout ([newline, CHR 0x1B] @ ''[1m'' @ [CHR 0x1B] @ ''[36m''
                             @ ''------------------------------------------------------''
                             @ [CHR 0x1B] @ ''[0m'' @ [newline])]
                    @ map print_task rs1
                    @ [print_task (tid, status, description)]
                    @ map print_task rs2
                    @ [Stdout ([CHR 0x1B] @ ''[36m''
                               @ ''------------------------------------------------------''
                               @ [CHR 0x1B] @ ''[0m'' @ [newline, newline])]"
    by (simp add: list_output_def ANSI_COLOR_CYAN_def ANSI_COLOR_RESET_def ANSI_BOLD_def)
  have t: "targets tid l" by (simp add: targets_def m)
  have c: "modifyTaskStatus tid complete w
             = Inr (w\<lparr>tasks := Some (concat (map (rewrite_line tid complete) (read_lines pre))
                                          @ (printf_d tid @ '','' @ printf_d (if complete then 1 else 0) @ '',''
                                             @ description @ [newline])
                                          @ concat (map (rewrite_line tid complete) (read_lines post)))\<rparr>,
                    [Stdout (''Task ID '' @ printf_d tid @ '' marked as ''
                             @ (if complete then ''DONE'' else ''PENDING'') @ ''.'' @ [newline])])"
    unfolding modifyTaskStatus_eq [OF assms(1-3)] using no1(1) no2(1) t
    by (auto simp: r m rewrite_line_Some [OF m])
  from m a c show ?thesis
    unfolding o p by (intro conjI)
qed

theorem any_status_is_well_formed_witness:
  "listTasks (env (Some ((''1,0,a'' @ [newline]) @ (''2,7,b'' @ [newline]) @ (''3,1,c'' @ [newline]))))
     = Inr ([Stdout ([newline, CHR 0x1B] @ ''[1m'' @ [CHR 0x1B] @ ''[36m''
                     @ ''------------------------------------------------------''
                     @ [CHR 0x1B] @ ''[0m'' @ [newline])]
            @ map print_task [(1, 0, ''a'')]
            @ [Stdout ([CHR 0x1B] @ ''[36mID: 2   '' @ [CHR 0x1B] @ ''[0m Status: '' @ [CHR 0x1B]
                       @ ''[33m[PENDING] '' @ [CHR 0x1B] @ ''[0m Description: b'' @ [CHR 0x1B] @ ''[0m''
                       @ [newline])]
            @ map print_task [(3, 1, ''c'')]
            @ [Stdout ([CHR 0x1B] @ ''[36m''
                       @ ''------------------------------------------------------''
                       @ [CHR 0x1B] @ ''[0m'' @ [newline, newline])])
   \<and> modifyTaskStatus 2 True (env (Some ((''1,0,a'' @ [newline]) @ (''2,7,b'' @ [newline]) @ (''3,1,c'' @ [newline]))))
     = Inr (env (Some ((''1,0,a'' @ [newline]) @ (''2,1,b'' @ [newline]) @ (''3,1,c'' @ [newline]))),
            [Stdout (''Task ID 2 marked as DONE.'' @ [newline])])"
proof -
  let ?pre = "''1,0,a'' @ [newline]" and ?l = "''2,7,b'' @ [newline]" and ?post = "''3,1,c'' @ [newline]"
  let ?w = "env (Some (?pre @ ?l @ ?post))"
  have h1: "tasks ?w = Some (?pre @ ?l @ ?post)" "home_set ?w" "writable ?w"
    by (simp_all add: env_def)
  have h4: "?pre = [] \<or> last ?pre = newline" by simp
  have h5: "?l = printf_d 2 @ '','' @ printf_d 7 @ '','' @ ''b'' @ [newline]" by code_simp
  have h6: "fits_line ?l" by code_simp
  have h7: "''b'' \<noteq> []" "length ''b'' < MAX_DESCRIPTION_LEN" by (simp_all add: MAX_DESCRIPTION_LEN_def)
  have h9: "list_loop (read_lines ?pre) = Inr [(1, 0, ''a'')]" "list_loop (read_lines ?post) = Inr [(3, 1, ''c'')]"
    by code_simp+
  have e: "printf_d 2 = ''2''" "printf_d 1 = ''1''"
    "concat (map (rewrite_line 2 True) (read_lines ?pre)) = ?pre"
    "concat (map (rewrite_line 2 True) (read_lines ?post)) = ?post"
    by code_simp+
  have n: "(7 :: cint) \<noteq> 1" by simp
  have rp: "replicate (4 - length ''2'') (CHR '' '') = ''   ''" by (simp add: eval_nat_numeral)
  note t = any_status_is_well_formed [OF h1 h4 h5 h6 h7 h9, of True, unfolded e rp]
  from t show ?thesis
    by (simp add: env_update e n)
qed

section \<open>An id that is not found\<close>

text \<open>
  Three runs of \<^verbatim>\<open>delete\<close> and one of \<^verbatim>\<open>done\<close>. The line \<^verbatim>\<open>3,x,y\<close> is not a
  record, and \<^verbatim>\<open>delete 3\<close> removes it and reports the task deleted. On a file with a
  NUL byte \<^verbatim>\<open>delete 9\<close> reports that the task is not found and rewrites the file cut
  short. \<^verbatim>\<open>delete 0\<close> ends with exit status 1 before the file is touched. The one line
  of \<open>store_long\<close>, 281 bytes, is not a record, and \<^verbatim>\<open>done 1\<close> finds the task in its
  second piece and changes the file.
\<close>

theorem not_found_counterexample:
  "sscanf_task store_bad_status = Inr None
   \<and> main ''tasakman'' [''delete'', ''3''] (env (Some store_bad_status))
       = Inr (env (Some []), [Stdout (''Task ID 3 deleted.'' @ [newline])], 0)
   \<and> main ''tasakman'' [''delete'', ''9''] (env (Some store_nul))
       = Inr (env (Some ''a''), [Stdout (''Task ID 9 not found.'' @ [newline])], 0)
   \<and> main ''tasakman'' [''delete'', ''0''] (env (Some store_a_b))
       = Inr (env (Some store_a_b), invalid_id, 1)
   \<and> sscanf_task store_long = Inr None
   \<and> main ''tasakman'' [''done'', ''1''] (env (Some store_long))
       = Inr (env (Some (replicate 275 (CHR ''x'') @ ''1,1,t'' @ [newline])),
              [Stdout (''Task ID 1 marked as DONE.'' @ [newline])], 0)"
proof -
  have a: "atoi ''3'' = 3" "atoi ''9'' = 9" "atoi ''0'' = 0" "atoi ''1'' = 1"
    by code_simp+
  have s: "\<not> (3 :: cint) \<le>s 0" "\<not> (9 :: cint) \<le>s 0" "(0 :: cint) \<le>s 0" "\<not> (1 :: cint) \<le>s 0"
    by (simp_all add: word_sle_eq)
  have 1: "sscanf_task store_bad_status = Inr None"
    by code_simp
  have 2: "deleteTask 3 (env (Some store_bad_status))
             = (env (Some []), [Stdout (''Task ID 3 deleted.'' @ [newline])])"
    by code_simp
  have 3: "deleteTask 9 (env (Some store_nul))
             = (env (Some ''a''), [Stdout (''Task ID 9 not found.'' @ [newline])])"
    by code_simp
  have 4: "sscanf_task store_long = Inr None"
    by code_simp
  have 5: "modifyTaskStatus 1 True (env (Some store_long))
             = Inr (env (Some (replicate 275 (CHR ''x'') @ ''1,1,t'' @ [newline])),
                    [Stdout (''Task ID 1 marked as DONE.'' @ [newline])])"
    by code_simp
  have m: "main ''tasakman'' [''done'', ''1''] (env (Some store_long))
       = Inr (env (Some (replicate 275 (CHR ''x'') @ ''1,1,t'' @ [newline])),
              [Stdout (''Task ID 1 marked as DONE.'' @ [newline])], 0)"
    unfolding main_done [OF env_sel(1,2)] a by (simp only: s 5 if_False sum.case prod.case)
  have d: "main ''tasakman'' [''delete'', ''3''] (env (Some store_bad_status))
       = Inr (env (Some []), [Stdout (''Task ID 3 deleted.'' @ [newline])], 0)
   \<and> main ''tasakman'' [''delete'', ''9''] (env (Some store_nul))
       = Inr (env (Some ''a''), [Stdout (''Task ID 9 not found.'' @ [newline])], 0)
   \<and> main ''tasakman'' [''delete'', ''0''] (env (Some store_a_b))
       = Inr (env (Some store_a_b), invalid_id, 1)"
    by (simp add: main_delete env_sel a s 2 3)
  from 1 d 4 m show ?thesis by (intro conjI) simp_all
qed

text \<open>
  C8, as amended: the store file has no NUL byte, the id given on the command line is
  positive, \<^verbatim>\<open>HOME\<close> is set and the task directory and the temporary file can be made.
  The pieces of the file are what \<^verbatim>\<open>fgets\<close> reads of it: a line of at most 275 bytes is
  one piece, a longer line is read in pieces of 275 bytes. When no piece is a record
  with that id (and no description overflows its buffer), \<^verbatim>\<open>done\<close> and \<^verbatim>\<open>pending\<close>
  print that the task is not found, leave the process environment and the bytes of the
  file as they were, and exit with status 0. When no piece starts with that id,
  \<^verbatim>\<open>delete\<close> does the same.
\<close>

theorem not_found_keeps_content:
  assumes "home_set w" "dir_ok w" "writable w" "tasks w = Some content" "NUL \<notin> set content"
    and "0 <s atoi a"
  shows "((\<forall>l\<in>set (read_lines content). sscanf_task l \<noteq> Inl BufferOverflow \<and> \<not> targets (atoi a) l) \<longrightarrow>
            main prog (''done'' # a # rest) w
              = Inr (w, [Stdout (''Task ID '' @ printf_d (atoi a) @ '' not found.'' @ [newline])], 0)
          \<and> main prog (''pending'' # a # rest) w
              = Inr (w, [Stdout (''Task ID '' @ printf_d (atoi a) @ '' not found.'' @ [newline])], 0))
         \<and> ((\<forall>l\<in>set (read_lines content). sscanf_id l \<noteq> Some (atoi a)) \<longrightarrow>
            main prog (''delete'' # a # rest) w
              = Inr (w, [Stdout (''Task ID '' @ printf_d (atoi a) @ '' not found.'' @ [newline])], 0))"
proof -
  have pos: "\<not> atoi a \<le>s 0"
    using assms(6) by (simp add: word_sle_eq word_sless_alt)
  have same: "w\<lparr>tasks := Some content\<rparr> = w"
    using assms(4) by simp
  have cat: "concat (read_lines content) = content"
    using assms(5) by (rule concat_read_lines)
  have m: "modifyTaskStatus (atoi a) c w
             = Inr (w, [Stdout (''Task ID '' @ printf_d (atoi a) @ '' not found.'' @ [newline])])"
    if "\<forall>l\<in>set (read_lines content). sscanf_task l \<noteq> Inl BufferOverflow \<and> \<not> targets (atoi a) l" for c
  proof -
    from that have "map (rewrite_line (atoi a) c) (read_lines content) = read_lines content"
      by (simp add: not_targets_rewrite map_idI)
    with that show ?thesis
      unfolding modifyTaskStatus_eq [OF assms(4,1,3)] by (auto simp: cat same)
  qed
  have d: "deleteTask (atoi a) w
             = (w, [Stdout (''Task ID '' @ printf_d (atoi a) @ '' not found.'' @ [newline])])"
    if "\<forall>l\<in>set (read_lines content). sscanf_id l \<noteq> Some (atoi a)"
  proof -
    from that have "filter (\<lambda>l. sscanf_id l \<noteq> Some (atoi a)) (read_lines content) = read_lines content"
      by simp
    with that show ?thesis
      unfolding deleteTask_eq [OF assms(4,1,3)] by (auto simp: cat same)
  qed
  show ?thesis
    using pos by (simp add: main_done [OF assms(1,2)] main_pending [OF assms(1,2)] main_delete [OF assms(1,2)] m d)
qed

theorem not_found_keeps_content_witness:
  "main ''tasakman'' [''delete'', ''9''] (env (Some store_a_b))
     = Inr (env (Some store_a_b), [Stdout (''Task ID 9 not found.'' @ [newline])], 0)
   \<and> main ''tasakman'' [''done'', ''9''] (env (Some store_a_b))
     = Inr (env (Some store_a_b), [Stdout (''Task ID 9 not found.'' @ [newline])], 0)"
proof -
  let ?w = "env (Some store_a_b)"
  have h: "home_set ?w" "dir_ok ?w" "writable ?w" "tasks ?w = Some store_a_b"
    by (simp_all add: env_def)
  have h5: "NUL \<notin> set store_a_b" by (simp add: store_a_b_def)
  have a: "atoi ''9'' = 9" by code_simp
  have h6: "0 <s atoi ''9''" unfolding a by (simp add: word_sless_alt)
  have p: "printf_d 9 = ''9''" by code_simp
  have l1: "\<forall>l\<in>set (read_lines store_a_b). sscanf_task l \<noteq> Inl BufferOverflow \<and> \<not> targets (atoi ''9'') l"
    by code_simp
  have l2: "\<forall>l\<in>set (read_lines store_a_b). sscanf_id l \<noteq> Some (atoi ''9'')"
    by code_simp
  note t = not_found_keeps_content [OF h h5 h6, of "''tasakman''" "[]"]
  note t1 = t [THEN conjunct1, THEN mp, OF l1, THEN conjunct1]
  note t2 = t [THEN conjunct2, THEN mp, OF l2]
  from t1 t2 show ?thesis
    unfolding a p by simp
qed

end
